theory Spec2Isabelle
  imports Complex_Main
begin

section \<open>goverseer: the supervisor control loop, its strategies and backoff policies\<close>

text \<open>
  A shallow embedding of the Go package \<^verbatim>\<open>goverseer\<close>: \<^verbatim>\<open>types.go\<close>, \<^verbatim>\<open>child.go\<close>,
  \<^verbatim>\<open>errors.go\<close>, \<^verbatim>\<open>backoff.go\<close>, \<^verbatim>\<open>supervisor.go\<close>, the strategy file
  (\<^verbatim>\<open>executeStrategy\<close>, \<^verbatim>\<open>restartOne\<close>, \<^verbatim>\<open>restartAll\<close>, \<^verbatim>\<open>restartRestForOne\<close>), the
  event file (\<^verbatim>\<open>emitEvent\<close>) and the options file (\<^verbatim>\<open>WithIntensity\<close>, \<^verbatim>\<open>WithChildren\<close>, ...).

  Conventions of the model.
  \<^item> A \<^verbatim>\<open>*child\<close> pointer is a reference (a natural number) into an explicit store
    \<open>heap\<close>; \<open>nextRef\<close> is the next unused reference. The children slice and the
    \<^verbatim>\<open>childMap\<close> hold references, so aliasing and pointer equality are those of the source.
  \<^item> \<^verbatim>\<open>time.Time\<close> and \<^verbatim>\<open>time.Duration\<close> are integers (nanoseconds). What the code
    reads from its environment during one call is passed in a record \<open>env\<close>: the reading
    of \<^verbatim>\<open>time.Now()\<close> and the value the platform gives to a \<^verbatim>\<open>float64\<close> to
    \<^verbatim>\<open>int64\<close> conversion whose operand is out of range (the Go specification leaves
    it to the implementation). The jitter policy has an environment of its own, with the
    sample of \<^verbatim>\<open>rand.Float64()\<close>.
  \<^item> The event handlers are the sink of the model: \<open>events\<close> is the sequence of events
    handed to \<^verbatim>\<open>emitEvent\<close>, without the \<^verbatim>\<open>Time\<close> field. \<open>slept\<close> is the sequence of
    durations given to \<^verbatim>\<open>time.Sleep\<close>.
  \<^item> A function of the source that can panic (a call of a nil \<^verbatim>\<open>cancel\<close> function)
    returns an \<open>option\<close>: \<open>None\<close> is the panic.
  \<^item> The body of a child (\<^verbatim>\<open>spec.Start\<close>) is user code and is not modelled;
    \<^verbatim>\<open>child.start\<close> only spawns it. How the body ends is an input of
    \<^verbatim>\<open>runWithRecovery\<close>, which sends a \<open>childExit\<close> value on the record's \<^verbatim>\<open>exits\<close>
    channel; the loop receives it from there.
  \<^item> \<^verbatim>\<open>restartCount\<close> and \<^verbatim>\<open>maxRestarts\<close> are Go \<^verbatim>\<open>int\<close>s, modelled as unbounded
    integers (a wrap-around would need \<open>2^63\<close> restarts). Arithmetic on
    \<^verbatim>\<open>time.Duration\<close> in the backoff policies wraps as \<^verbatim>\<open>int64\<close> does.
\<close>

subsection \<open>types.go, errors.go, the event and strategy constants\<close>

type_synonym RestartType = int

definition Permanent :: RestartType where "Permanent = 0"
definition Transient :: RestartType where "Transient = 1"
definition Temporary :: RestartType where "Temporary = 2"

type_synonym Strategy = int

definition OneForOne :: Strategy where "OneForOne = 0"
definition OneForAll :: Strategy where "OneForAll = 1"
definition RestForOne :: Strategy where "RestForOne = 2"
definition SimpleOneForOne :: Strategy where "SimpleOneForOne = 3"

datatype EventType =
  ChildStarted | ChildExited | ChildRestarted | SupervisorStopping
  | SupervisorFailedIntensity | ChildPanicked

datatype error =
  ErrSupervisorStopped | ErrIntensityExceeded | ErrChildNotFound | ErrChildAlreadyExists
  | ErrInvalidShutdownTimeout
  | ErrUnknownStrategy int  \<comment> \<open>\<^verbatim>\<open>fmt.Errorf("unknown strategy: %d", s.strategy)\<close>\<close>

record ChildSpec =
  Name :: string
  Restart :: RestartType

record Event =
  ChildName :: string
  Type :: EventType
  Err :: "string option"
  StackTrace :: string

subsection \<open>child.go\<close>

type_synonym ref = nat

text \<open>
  \<open>cancel\<close> tells whether the record's \<^verbatim>\<open>ctx\<close>, \<^verbatim>\<open>cancel\<close> and \<^verbatim>\<open>exits\<close> fields are set:
  \<^verbatim>\<open>newChild\<close> sets them, \<^verbatim>\<open>WithChildren\<close> builds \<^verbatim>\<open>&child{spec: spec}\<close> and leaves them nil.
\<close>

record child =
  spec :: ChildSpec
  cancel :: bool
  restartCount :: int
  stopped :: bool

record childExit =
  child :: ref
  err :: "string option"
  panic :: bool
  stackTrace :: string

subsection \<open>backoff.go\<close>

record env =
  now :: int
  f2i_overflow :: int

text \<open>
  The policies \<^verbatim>\<open>exponentialBackoff\<close>, \<^verbatim>\<open>constantBackoff\<close> and \<^verbatim>\<open>linearBackoff\<close>.
  Their arithmetic is integer arithmetic, apart from one product of the exponential
  policy. The fourth policy, \<^verbatim>\<open>jitterBackoff\<close>, computes in \<^verbatim>\<open>float64\<close> and is
  modelled further down, as a type of its own over these three.
\<close>

datatype BackoffPolicy =
  exponentialBackoff int int
  | constantBackoff int
  | linearBackoff int int int

definition wrap64 :: "int \<Rightarrow> int" where
  "wrap64 x = (x + 2 ^ 63) mod 2 ^ 64 - 2 ^ 63"

text \<open>
  \<^verbatim>\<open>float64(d)\<close> for an \<^verbatim>\<open>int64\<close> \<open>d\<close>: the nearest value with 53 significant bits,
  ties to the even one. The result is an integer. \<open>excessBits a\<close> is the number of low
  bits that a magnitude \<open>a\<close> has beyond 53.
\<close>

function excessBits :: "int \<Rightarrow> nat" where
  "excessBits a = (if a < 2 ^ 53 then 0 else Suc (excessBits (a div 2)))"
  by pat_completeness auto
termination
  by (relation "measure nat") auto

declare excessBits.simps [simp del]

definition float64_of_int64 :: "int \<Rightarrow> int" where
  "float64_of_int64 d =
     (let a = \<bar>d\<bar>;
          k = excessBits a;
          q = a div 2 ^ k;
          r = a mod 2 ^ k;
          m = (if 2 * r > 2 ^ k \<or> (2 * r = 2 ^ k \<and> odd q) then q + 1 else q)
      in sgn d * (m * 2 ^ k))"

text \<open>
  \<^verbatim>\<open>time.Duration(float64(e.initial) * math.Pow(2, float64(restarts)))\<close>.
  \<^verbatim>\<open>math.Pow(2, x)\<close> is \<open>+Inf\<close> from \<open>x = 1024\<close> on; the product is then infinite or
  NaN and the conversion is out of range. Below that the power is exact, and so is the
  product of a \<^verbatim>\<open>float64\<close> by it, unless it overflows to an infinity (out of range as
  well) or is less than one in magnitude (its conversion is then \<open>0\<close>). The
  conversion truncates towards zero when the value is in the range of \<^verbatim>\<open>int64\<close> and
  is the platform's value otherwise.
\<close>

definition exponentialProduct :: "env \<Rightarrow> int \<Rightarrow> int \<Rightarrow> int" where
  "exponentialProduct e initial restarts =
     (let f = float64_of_int64 initial
      in if 1024 \<le> restarts then f2i_overflow e
         else if 0 \<le> restarts then
           (let p = f * 2 ^ nat restarts
            in if - (2 ^ 63) \<le> p \<and> p < 2 ^ 63 then p else f2i_overflow e)
         else sgn f * (\<bar>f\<bar> div 2 ^ nat (- restarts)))"

primrec ComputeDelay :: "env \<Rightarrow> BackoffPolicy \<Rightarrow> int \<Rightarrow> int" where
  "ComputeDelay e (exponentialBackoff initial mx) restarts =
     (let delay = exponentialProduct e initial restarts
      in if delay > mx then mx else delay)"
| "ComputeDelay e (constantBackoff d) restarts = d"
| "ComputeDelay e (linearBackoff initial increment mx) restarts =
     (let delay = wrap64 (initial + wrap64 (wrap64 restarts * increment))
      in if delay > mx then mx else delay)"

definition ExponentialBackoff :: "int \<Rightarrow> int \<Rightarrow> BackoffPolicy" where
  "ExponentialBackoff initial mx = exponentialBackoff initial mx"

definition ConstantBackoff :: "int \<Rightarrow> BackoffPolicy" where
  "ConstantBackoff delay = constantBackoff delay"

definition LinearBackoff :: "int \<Rightarrow> int \<Rightarrow> int \<Rightarrow> BackoffPolicy" where
  "LinearBackoff initial increment mx = linearBackoff initial increment mx"

text \<open>
  \<^verbatim>\<open>float64\<close> values, for the jitter policy. \<open>Finite m e\<close> is the number \<open>m * 2^e\<close>;
  the two zeros are not told apart (no operation used here does). \<open>Infinity s\<close> is the
  infinity of sign \<open>s\<close> (true: negative).
\<close>

datatype float64 = Finite int int | Infinity bool | NaN

text \<open>
  The \<^verbatim>\<open>float64\<close> nearest to \<open>m * 2^e\<close>, ties to even: the magnitude keeps 53
  significant bits, on a grid no finer than \<open>2^-1074\<close> (subnormal numbers), and a
  result of \<open>2^1024\<close> or more is an infinity.
\<close>

definition round53 :: "int \<Rightarrow> int \<Rightarrow> float64" where
  "round53 m e =
     (let a = \<bar>m\<bar>;
          k = nat (max (int (excessBits a)) (- 1074 - e));
          q = a div 2 ^ k;
          r = a mod 2 ^ k;
          n = (if 2 * r > 2 ^ k \<or> (2 * r = 2 ^ k \<and> odd q) then q + 1 else q);
          g = e + int k
      in if 0 \<le> g \<and> 2 ^ 1024 \<le> n * 2 ^ nat g then Infinity (m < 0)
         else Finite (sgn m * n) g)"

text \<open>The operations \<^verbatim>\<open>x * y\<close>, \<^verbatim>\<open>x - y\<close> and \<^verbatim>\<open>x < y\<close>: the exact result, rounded.\<close>

fun fmul :: "float64 \<Rightarrow> float64 \<Rightarrow> float64" where
  "fmul (Finite m1 e1) (Finite m2 e2) = round53 (m1 * m2) (e1 + e2)"
| "fmul (Finite m e) (Infinity s) = (if m = 0 then NaN else Infinity (s \<noteq> (m < 0)))"
| "fmul (Infinity s) (Finite m e) = (if m = 0 then NaN else Infinity (s \<noteq> (m < 0)))"
| "fmul (Infinity s) (Infinity t) = Infinity (s \<noteq> t)"
| "fmul NaN y = NaN"
| "fmul x NaN = NaN"

fun fsub :: "float64 \<Rightarrow> float64 \<Rightarrow> float64" where
  "fsub (Finite m1 e1) (Finite m2 e2) =
     (let e = min e1 e2 in round53 (m1 * 2 ^ nat (e1 - e) - m2 * 2 ^ nat (e2 - e)) e)"
| "fsub (Finite m e) (Infinity s) = Infinity (\<not> s)"
| "fsub (Infinity s) (Finite m e) = Infinity s"
| "fsub (Infinity s) (Infinity t) = (if s = t then NaN else Infinity s)"
| "fsub NaN y = NaN"
| "fsub x NaN = NaN"

fun flt :: "float64 \<Rightarrow> float64 \<Rightarrow> bool" where
  "flt (Finite m1 e1) (Finite m2 e2) =
     (let e = min e1 e2 in m1 * 2 ^ nat (e1 - e) < m2 * 2 ^ nat (e2 - e))"
| "flt (Finite m e) (Infinity s) = (\<not> s)"
| "flt (Infinity s) (Finite m e) = s"
| "flt (Infinity s) (Infinity t) = (s \<and> \<not> t)"
| "flt NaN y = False"
| "flt x NaN = False"

text \<open>
  \<^verbatim>\<open>time.Duration(x)\<close> for a \<^verbatim>\<open>float64\<close> \<open>x\<close>: truncation towards zero when the
  value is in the range of \<^verbatim>\<open>int64\<close>, the platform's value \<open>ovf\<close> otherwise
  (infinities and NaN included).
\<close>

definition float64_to_int64 :: "int \<Rightarrow> float64 \<Rightarrow> int" where
  "float64_to_int64 ovf x =
     (case x of
        Finite m e \<Rightarrow>
          (let t = (if 0 \<le> e then m * 2 ^ nat e else sgn m * (\<bar>m\<bar> div 2 ^ nat (- e)))
           in if - (2 ^ 63) \<le> t \<and> t < 2 ^ 63 then t else ovf)
      | _ \<Rightarrow> ovf)"

text \<open>
  \<^verbatim>\<open>jitterBackoff\<close>, over a base policy of the three kinds above. \<open>jitterEnv\<close> is what
  one call of its \<^verbatim>\<open>ComputeDelay\<close> reads: the sample of \<^verbatim>\<open>rand.Float64()\<close> and the
  platform's value for its out-of-range conversion. The delay is
  \<^verbatim>\<open>baseDelay + time.Duration(float64(baseDelay) * j.factor * (rand.Float64()*2 - 1))\<close>,
  evaluated from left to right. (\<^verbatim>\<open>rand.Float64()*2\<close> is exact, so a fused
  multiply-subtract gives the value of \<^verbatim>\<open>rand.Float64()*2 - 1\<close> that the two
  operations give.)
\<close>

record jitterBackoff =
  base :: BackoffPolicy
  factor :: float64

record jitterEnv =
  sample :: float64
  overflow :: int

definition JitterBackoff :: "BackoffPolicy \<Rightarrow> float64 \<Rightarrow> jitterBackoff" where
  "JitterBackoff b f =
     (let f1 = (if flt f (Finite 0 0) then Finite 0 0 else f);
          f2 = (if flt (Finite 1 0) f1 then Finite 1 0 else f1)
      in \<lparr>base = b, factor = f2\<rparr>)"

definition ComputeDelay_jitter :: "env \<Rightarrow> jitterEnv \<Rightarrow> jitterBackoff \<Rightarrow> int \<Rightarrow> int" where
  "ComputeDelay_jitter e je j restarts =
     (let baseDelay = ComputeDelay e (base j) restarts;
          jitter = float64_to_int64 (overflow je)
                     (fmul (fmul (round53 baseDelay 0) (factor j))
                        (fsub (fmul (sample je) (Finite 2 0)) (Finite 1 0)));
          delay = wrap64 (baseDelay + jitter)
      in if delay < 0 then 0 else delay)"

definition millisecond :: int where "millisecond = 1000000"
definition second :: int where "second = 1000000000"
definition minute :: int where "minute = 60000000000"

subsection \<open>supervisor.go: the state\<close>

record Supervisor =
  name :: string
  strategy :: Strategy
  maxRestarts :: int
  restartWindow :: int
  backoff :: BackoffPolicy
  shutdownTimeout :: int
  children :: "ref list"
  childMap :: "string \<Rightarrow> ref option"
  restartHistory :: "int list"
  stopped :: bool
  finalErr :: "error option"
  cancelled :: bool  \<comment> \<open>\<^verbatim>\<open>s.cancel()\<close> has been called: \<^verbatim>\<open>s.ctx.Done()\<close> is closed\<close>
  doneClosed :: bool  \<comment> \<open>the channel \<^verbatim>\<open>s.done\<close> is closed: \<^verbatim>\<open>run\<close> has returned\<close>
  heap :: "ref \<Rightarrow> child"
  nextRef :: ref
  events :: "Event list"
  slept :: "int list"

definition emitEvent :: "Event \<Rightarrow> Supervisor \<Rightarrow> Supervisor" where
  "emitEvent e s = s\<lparr>events := events s @ [e]\<rparr>"

definition childName :: "Supervisor \<Rightarrow> ref \<Rightarrow> string" where
  "childName s r = Name (spec (heap s r))"

definition newChild :: "ChildSpec \<Rightarrow> Supervisor \<Rightarrow> ref \<times> Supervisor" where
  "newChild sp s =
     (nextRef s,
      s\<lparr>heap := (heap s)(nextRef s :=
             \<lparr>spec = sp, cancel = True, restartCount = 0, stopped = False\<rparr>),
        nextRef := Suc (nextRef s)\<rparr>)"

definition setRestartCount :: "ref \<Rightarrow> int \<Rightarrow> Supervisor \<Rightarrow> Supervisor" where
  "setRestartCount r n s = s\<lparr>heap := (heap s)(r := (heap s r)\<lparr>restartCount := n\<rparr>)\<rparr>"

text \<open>
  \<^verbatim>\<open>child.stop\<close>: sets \<^verbatim>\<open>stopped\<close>, then calls \<^verbatim>\<open>c.cancel()\<close>, which panics when the
  function is nil.
\<close>

definition stop :: "ref \<Rightarrow> Supervisor \<Rightarrow> Supervisor option" where
  "stop r s =
     (if cancel (heap s r)
      then Some (s\<lparr>heap := (heap s)(r := (heap s r)\<lparr>child.stopped := True\<rparr>)\<rparr>)
      else None)"

fun stopAll :: "ref list \<Rightarrow> Supervisor \<Rightarrow> Supervisor option" where
  "stopAll [] s = Some s"
| "stopAll (r # rs) s = (case stop r s of None \<Rightarrow> None | Some s' \<Rightarrow> stopAll rs s')"

definition isStopped :: "ref \<Rightarrow> Supervisor \<Rightarrow> bool" where
  "isStopped r s = child.stopped (heap s r)"

text \<open>
  \<^verbatim>\<open>runWithRecovery\<close>: the body returns an error value (nil or not) or panics with a
  value and a stack; in both cases one \<open>childExit\<close> is sent on \<^verbatim>\<open>c.exits\<close>. A send on a
  nil channel blocks forever: a record without the channel delivers no exit (\<open>None\<close>).
\<close>

datatype outcome = Returned "string option" | Panicked string string

definition runWithRecovery :: "ref \<Rightarrow> outcome \<Rightarrow> Supervisor \<Rightarrow> childExit option" where
  "runWithRecovery c out s =
     (if cancel (heap s c)
      then Some (case out of
                   Returned er \<Rightarrow> \<lparr>child = c, err = er, panic = False, stackTrace = []\<rparr>
                 | Panicked r stack \<Rightarrow>
                     \<lparr>child = c, err = Some (''panic: '' @ r), panic = True, stackTrace = stack\<rparr>)
      else None)"

text \<open>
  \<^verbatim>\<open>startChild\<close> emits \<^verbatim>\<open>ChildStarted\<close> and spawns the body. Its error result is the
  constant nil, so the error branches of its callers are dead and the model returns the
  state only.
\<close>

definition startedEvent :: "string \<Rightarrow> Event" where
  "startedEvent nm = \<lparr>ChildName = nm, Type = ChildStarted, Err = None, StackTrace = []\<rparr>"

definition startChild :: "ref \<Rightarrow> Supervisor \<Rightarrow> Supervisor" where
  "startChild ch s = emitEvent (startedEvent (childName s ch)) s"

subsection \<open>Construction and options\<close>

definition WithName :: "string \<Rightarrow> Supervisor \<Rightarrow> Supervisor" where
  "WithName n s = s\<lparr>name := n\<rparr>"

definition WithIntensity :: "int \<Rightarrow> int \<Rightarrow> Supervisor \<Rightarrow> Supervisor" where
  "WithIntensity m window s = s\<lparr>maxRestarts := m, restartWindow := window\<rparr>"

definition WithBackoff :: "BackoffPolicy \<Rightarrow> Supervisor \<Rightarrow> Supervisor" where
  "WithBackoff policy s = s\<lparr>backoff := policy\<rparr>"

definition WithShutdownTimeout :: "int \<Rightarrow> Supervisor \<Rightarrow> Supervisor" where
  "WithShutdownTimeout timeout s =
     s\<lparr>shutdownTimeout := (if timeout \<le> 0 then 30 * second else timeout)\<rparr>"

fun WithChildren :: "ChildSpec list \<Rightarrow> Supervisor \<Rightarrow> Supervisor" where
  "WithChildren [] s = s"
| "WithChildren (sp # specs) s =
     WithChildren specs
       (s\<lparr>heap := (heap s)(nextRef s :=
              \<lparr>spec = sp, cancel = False, restartCount = 0, stopped = False\<rparr>),
          nextRef := Suc (nextRef s),
          children := children s @ [nextRef s],
          childMap := (childMap s)(Name sp := Some (nextRef s))\<rparr>)"

definition New :: "Strategy \<Rightarrow> (Supervisor \<Rightarrow> Supervisor) list \<Rightarrow> Supervisor" where
  "New strat opts =
     fold (\<lambda>opt s. opt s) opts
       \<lparr>name = ''supervisor'', strategy = strat, maxRestarts = 10, restartWindow = minute,
        backoff = ExponentialBackoff (100 * millisecond) (5 * second),
        shutdownTimeout = 30 * second, children = [], childMap = (\<lambda>_. None),
        restartHistory = [], stopped = False, finalErr = None, cancelled = False,
        doneClosed = False,
        heap = (\<lambda>_. \<lparr>spec = \<lparr>Name = [], Restart = 0\<rparr>, cancel = False, restartCount = 0,
                      stopped = False\<rparr>),
        nextRef = 0, events = [], slept = []\<rparr>"

subsection \<open>Generic loops over slices\<close>

text \<open>
  \<^verbatim>\<open>for i, c := range xs { if P(c) { ...i...; break } }\<close>: the index of the first element
  that satisfies \<open>P\<close>, or \<open>None\<close> when the loop ends without a match.
\<close>

fun findIndex :: "('a \<Rightarrow> bool) \<Rightarrow> 'a list \<Rightarrow> nat option" where
  "findIndex P [] = None"
| "findIndex P (x # xs) = (if P x then Some 0 else map_option Suc (findIndex P xs))"

text \<open>\<^verbatim>\<open>for i, c := range xs { if P(c) { xs[i] = y; break } }\<close>\<close>

definition replaceFirst :: "('a \<Rightarrow> bool) \<Rightarrow> 'a \<Rightarrow> 'a list \<Rightarrow> 'a list" where
  "replaceFirst P y xs = (case findIndex P xs of None \<Rightarrow> xs | Some i \<Rightarrow> xs[i := y])"

text \<open>\<^verbatim>\<open>for i, c := range xs { if c == y { xs = append(xs[:i], xs[i+1:]...); break } }\<close>\<close>

definition removeFirst :: "'a \<Rightarrow> 'a list \<Rightarrow> 'a list" where
  "removeFirst y xs =
     (case findIndex (\<lambda>c. c = y) xs of None \<Rightarrow> xs | Some i \<Rightarrow> take i xs @ drop (Suc i) xs)"

subsection \<open>supervisor.go: the commands\<close>

definition doAddChild :: "ChildSpec \<Rightarrow> Supervisor \<Rightarrow> error option \<times> Supervisor" where
  "doAddChild sp s =
     (if stopped s then (Some ErrSupervisorStopped, s)
      else if childMap s (Name sp) \<noteq> None then (Some ErrChildAlreadyExists, s)
      else
        (let (ch, s1) = newChild sp s;
             s2 = s1\<lparr>children := children s1 @ [ch]\<rparr>;
             s3 = s2\<lparr>childMap := (childMap s2)(Name sp := Some ch)\<rparr>
         in (None, startChild ch s3)))"

definition doRemoveChild :: "string \<Rightarrow> Supervisor \<Rightarrow> (error option \<times> Supervisor) option" where
  "doRemoveChild nm s =
     (case childMap s nm of
        None \<Rightarrow> Some (Some ErrChildNotFound, s)
      | Some ch \<Rightarrow>
          (case stop ch s of
             None \<Rightarrow> None
           | Some s1 \<Rightarrow>
               (let s2 = s1\<lparr>children := removeFirst ch (children s1)\<rparr>;
                    s3 = s2\<lparr>childMap := (childMap s2)(nm := None)\<rparr>
                in Some (None, s3))))"

definition doRestartChild :: "string \<Rightarrow> Supervisor \<Rightarrow> (error option \<times> Supervisor) option" where
  "doRestartChild nm s =
     (case childMap s nm of
        None \<Rightarrow> Some (Some ErrChildNotFound, s)
      | Some old \<Rightarrow>
          (case stop old s of
             None \<Rightarrow> None
           | Some s1 \<Rightarrow>
               (let (ch, s2) = newChild (spec (heap s1 old)) s1;
                    s3 = s2\<lparr>childMap := (childMap s2)(nm := Some ch)\<rparr>;
                    s4 = s3\<lparr>children := replaceFirst (\<lambda>c. childName s3 c = nm) ch (children s3)\<rparr>
                in Some (None, startChild ch s4))))"

datatype command = Add ChildSpec | Remove string | Restart_cmd string

text \<open>\<^verbatim>\<open>handleCommand\<close>: the result is what is sent on the command's response channel.\<close>

fun handleCommand :: "command \<Rightarrow> Supervisor \<Rightarrow> (error option \<times> Supervisor) option" where
  "handleCommand (Add sp) s = Some (doAddChild sp s)"
| "handleCommand (Remove nm) s = doRemoveChild nm s"
| "handleCommand (Restart_cmd nm) s = doRestartChild nm s"

subsection \<open>The strategies\<close>

definition restartedEvent :: "string \<Rightarrow> Event" where
  "restartedEvent nm = \<lparr>ChildName = nm, Type = ChildRestarted, Err = None, StackTrace = []\<rparr>"

definition restartOne :: "childExit \<Rightarrow> Supervisor \<Rightarrow> error option \<times> Supervisor" where
  "restartOne exit s =
     (let old = heap s (child exit);
          (nc, s1) = newChild (spec old) s;
          s2 = setRestartCount nc (restartCount old + 1) s1;
          s3 = s2\<lparr>childMap := (childMap s2)(Name (spec old) := Some nc)\<rparr>;
          s4 = s3\<lparr>children :=
                  replaceFirst (\<lambda>ch. childName s3 ch = Name (spec old)) nc (children s3)\<rparr>;
          s5 = emitEvent (restartedEvent (childName s4 nc)) s4
      in (None, startChild nc s5))"

text \<open>The second loop of \<^verbatim>\<open>restartAll\<close>: the new records, in order, and the updated map.\<close>

fun createAll :: "ref list \<Rightarrow> ref list \<Rightarrow> Supervisor \<Rightarrow> ref list \<times> Supervisor" where
  "createAll [] newChildren s = (newChildren, s)"
| "createAll (ch # chs) newChildren s =
     (let (nc, s1) = newChild (spec (heap s ch)) s;
          s2 = setRestartCount nc (restartCount (heap s ch) + 1) s1;
          s3 = s2\<lparr>childMap := (childMap s2)(childName s ch := Some nc)\<rparr>
      in createAll chs (newChildren @ [nc]) s3)"

text \<open>The third loop of \<^verbatim>\<open>restartAll\<close>.\<close>

fun startAll :: "ref list \<Rightarrow> Supervisor \<Rightarrow> Supervisor" where
  "startAll [] s = s"
| "startAll (ch # chs) s =
     startAll chs (startChild ch (emitEvent (restartedEvent (childName s ch)) s))"

definition restartAll :: "Supervisor \<Rightarrow> (error option \<times> Supervisor) option" where
  "restartAll s =
     (case stopAll (children s) s of
        None \<Rightarrow> None
      | Some s1 \<Rightarrow>
          (let (newChildren, s2) = createAll (children s1) [] s1;
               s3 = s2\<lparr>children := newChildren\<rparr>
           in Some (None, startAll (children s3) s3)))"

text \<open>One iteration of the second loop of \<^verbatim>\<open>restartRestForOne\<close>.\<close>

definition restartSlot :: "nat \<Rightarrow> Supervisor \<Rightarrow> Supervisor" where
  "restartSlot i s =
     (let oldChild = children s ! i;
          (nc, s1) = newChild (spec (heap s oldChild)) s;
          s2 = setRestartCount nc (restartCount (heap s oldChild) + 1) s1;
          s3 = s2\<lparr>children := (children s2)[i := nc]\<rparr>;
          s4 = s3\<lparr>childMap := (childMap s3)(childName s3 nc := Some nc)\<rparr>;
          s5 = emitEvent (restartedEvent (childName s4 nc)) s4
      in startChild nc s5)"

lemma length_children_restartSlot [simp]:
  "length (children (restartSlot i s)) = length (children s)"
  by (simp add: restartSlot_def Let_def newChild_def setRestartCount_def emitEvent_def
      startChild_def)

text \<open>\<^verbatim>\<open>for i := failedIndex; i < len(s.children); i++ { ... }\<close>\<close>

function restartFrom :: "nat \<Rightarrow> Supervisor \<Rightarrow> Supervisor" where
  "restartFrom i s =
     (if i < length (children s) then restartFrom (Suc i) (restartSlot i s) else s)"
  by pat_completeness auto
termination
  by (relation "measure (\<lambda>(i, s). length (children s) - i)") auto

declare restartFrom.simps [simp del]

definition restartRestForOne :: "childExit \<Rightarrow> Supervisor \<Rightarrow> (error option \<times> Supervisor) option" where
  "restartRestForOne exit s =
     (case findIndex (\<lambda>ch. childName s ch = childName s (child exit)) (children s) of
        None \<Rightarrow> Some (None, s)
      | Some failedIndex \<Rightarrow>
          (case stopAll (drop failedIndex (children s)) s of
             None \<Rightarrow> None
           | Some s1 \<Rightarrow> Some (None, restartFrom failedIndex s1)))"

definition executeStrategy :: "childExit \<Rightarrow> Supervisor \<Rightarrow> (error option \<times> Supervisor) option" where
  "executeStrategy exit s =
     (if strategy s = OneForOne then Some (restartOne exit s)
      else if strategy s = OneForAll then restartAll s
      else if strategy s = RestForOne then restartRestForOne exit s
      else if strategy s = SimpleOneForOne then Some (restartOne exit s)
      else Some (Some (ErrUnknownStrategy (strategy s)), s))"

subsection \<open>supervisor.go: exit processing\<close>

definition shouldRestart :: "childExit \<Rightarrow> Supervisor \<Rightarrow> bool" where
  "shouldRestart exit s =
     (let rt = Restart (spec (heap s (child exit)))
      in if rt = Permanent then True
         else if rt = Transient then err exit \<noteq> None \<or> panic exit
         else if rt = Temporary then False
         else False)"

definition checkRestartIntensity :: "env \<Rightarrow> Supervisor \<Rightarrow> bool \<times> Supervisor" where
  "checkRestartIntensity e s =
     (let s1 = s\<lparr>restartHistory := restartHistory s @ [now e]\<rparr>;
          cutoff = now e - restartWindow s1;
          start = (case findIndex (\<lambda>t. t > cutoff) (restartHistory s1) of
                     None \<Rightarrow> 0 | Some i \<Rightarrow> i);
          s2 = s1\<lparr>restartHistory := drop start (restartHistory s1)\<rparr>
      in (int (length (restartHistory s2)) \<le> maxRestarts s2, s2))"

definition exitEvent :: "childExit \<Rightarrow> Supervisor \<Rightarrow> Event" where
  "exitEvent exit s =
     \<lparr>ChildName = childName s (child exit),
      Type = (if panic exit then ChildPanicked else ChildExited),
      Err = err exit, StackTrace = stackTrace exit\<rparr>"

definition intensityEvent :: "childExit \<Rightarrow> Supervisor \<Rightarrow> Event" where
  "intensityEvent exit s =
     \<lparr>ChildName = childName s (child exit), Type = SupervisorFailedIntensity, Err = None,
      StackTrace = []\<rparr>"

definition handleChildExit :: "env \<Rightarrow> childExit \<Rightarrow> Supervisor \<Rightarrow> (error option \<times> Supervisor) option" where
  "handleChildExit e exit s =
     (let s1 = emitEvent (exitEvent exit s) s
      in if \<not> shouldRestart exit s1 then Some (None, s1)
         else
           (let (ok, s2) = checkRestartIntensity e s1
            in if \<not> ok then Some (Some ErrIntensityExceeded, emitEvent (intensityEvent exit s2) s2)
               else
                 (let delay = ComputeDelay e (backoff s2) (restartCount (heap s2 (child exit)));
                      s3 = (if delay > 0 then s2\<lparr>slept := slept s2 @ [delay]\<rparr> else s2)
                  in executeStrategy exit s3)))"

subsection \<open>supervisor.go: the loop and the public operations\<close>

text \<open>
  \<^verbatim>\<open>shutdownChildren\<close> stops every child and then polls \<^verbatim>\<open>isStopped\<close> until all are
  stopped or the timeout fires. \<^verbatim>\<open>stop\<close> has set every flag, so the first poll ends it.
\<close>

definition shutdownChildren :: "Supervisor \<Rightarrow> Supervisor option" where
  "shutdownChildren s = stopAll (children s) s"

text \<open>
  The three branches of the \<^verbatim>\<open>select\<close> in \<^verbatim>\<open>run\<close>, each with the deferred calls
  (\<^verbatim>\<open>shutdownChildren\<close>, then \<^verbatim>\<open>close(s.done)\<close>) when the branch returns.
\<close>

definition runDeferred :: "Supervisor \<Rightarrow> Supervisor option" where
  "runDeferred s = map_option (\<lambda>s'. s'\<lparr>doneClosed := True\<rparr>) (shutdownChildren s)"

definition runCancelled :: "Supervisor \<Rightarrow> Supervisor option" where
  "runCancelled s =
     runDeferred
       (emitEvent \<lparr>ChildName = [], Type = SupervisorStopping, Err = None, StackTrace = []\<rparr> s)"

definition runCommand :: "command \<Rightarrow> Supervisor \<Rightarrow> (error option \<times> Supervisor) option" where
  "runCommand cmd s = handleCommand cmd s"

definition runExit :: "env \<Rightarrow> childExit \<Rightarrow> Supervisor \<Rightarrow> Supervisor option" where
  "runExit e exit s =
     (case handleChildExit e exit s of
        None \<Rightarrow> None
      | Some (None, s1) \<Rightarrow> Some s1
      | Some (Some er, s1) \<Rightarrow>
          runDeferred (s1\<lparr>finalErr := Some er, stopped := True, cancelled := True\<rparr>))"

text \<open>\<^verbatim>\<open>Start\<close>: the loop over the children calls \<^verbatim>\<open>startChild\<close>, which never fails.\<close>

definition Start :: "Supervisor \<Rightarrow> error option \<times> Supervisor" where
  "Start s =
     (if stopped s then (Some ErrSupervisorStopped, s)
      else (None, fold startChild (children s) s))"

text \<open>
  \<^verbatim>\<open>Stop\<close> cancels the context and waits for \<^verbatim>\<open>s.done\<close>: when the loop is still
  running it takes the cancellation branch (\<open>None\<close>: the loop panicked in
  \<^verbatim>\<open>shutdownChildren\<close>). \<^verbatim>\<open>Wait\<close> only waits: its \<open>None\<close> is a call that blocks
  in this state.
\<close>

definition Stop :: "Supervisor \<Rightarrow> (error option \<times> Supervisor) option" where
  "Stop s =
     (if doneClosed s then Some (finalErr s, s\<lparr>cancelled := True\<rparr>)
      else map_option (\<lambda>s'. (finalErr s', s')) (runCancelled (s\<lparr>cancelled := True\<rparr>)))"

definition Wait :: "Supervisor \<Rightarrow> error option option" where
  "Wait s = (if doneClosed s then Some (finalErr s) else None)"

subsection \<open>Auxiliary notions for the properties\<close>

text \<open>The store after \<^verbatim>\<open>stop\<close> has been called on each record of a list.\<close>

definition stoppedHeap :: "ref list \<Rightarrow> (ref \<Rightarrow> child) \<Rightarrow> ref \<Rightarrow> child" where
  "stoppedHeap rs h = (\<lambda>r. if r \<in> set rs then (h r)\<lparr>child.stopped := True\<rparr> else h r)"

text \<open>
  Successive invocations of \<^verbatim>\<open>checkRestartIntensity\<close>, one for each reading of the
  clock: the final state, and the results in order.
\<close>

fun intensityChecks :: "env list \<Rightarrow> Supervisor \<Rightarrow> Supervisor" where
  "intensityChecks [] s = s"
| "intensityChecks (e # es) s = intensityChecks es (snd (checkRestartIntensity e s))"

fun intensityResults :: "env list \<Rightarrow> Supervisor \<Rightarrow> bool list" where
  "intensityResults [] s = []"
| "intensityResults (e # es) s =
     fst (checkRestartIntensity e s) # intensityResults es (snd (checkRestartIntensity e s))"

text \<open>The durations that \<^verbatim>\<open>handleChildExit\<close> sleeps for the backoff of an exit: one or none.\<close>

definition backoffSleep :: "env \<Rightarrow> childExit \<Rightarrow> Supervisor \<Rightarrow> int list" where
  "backoffSleep e exit s =
     (let delay = ComputeDelay e (backoff s) (restartCount (heap s (child exit)))
      in if delay > 0 then [delay] else [])"

text \<open>
  The record that a strategy installs in place of a record \<open>c\<close>, and the events of
  restarting the records of a list, in order.
\<close>

definition replacement :: "child \<Rightarrow> child" where
  "replacement c = \<lparr>spec = spec c, cancel = True, restartCount = restartCount c + 1, stopped = False\<rparr>"

definition restartEvents :: "Supervisor \<Rightarrow> ref list \<Rightarrow> Event list" where
  "restartEvents s rs =
     concat (map (\<lambda>r. [restartedEvent (childName s r), startedEvent (childName s r)]) rs)"

text \<open>
  The registry invariant: the names of the registered records are distinct, their
  references are allocated, and the name index maps a name to a record exactly when
  that record is in the children sequence under that name.
\<close>

definition registryInv :: "Supervisor \<Rightarrow> bool" where
  "registryInv s \<longleftrightarrow>
     distinct (map (childName s) (children s))
     \<and> (\<forall>r\<in>set (children s). r < nextRef s)
     \<and> (\<forall>nm r. childMap s nm = Some r \<longleftrightarrow> r \<in> set (children s) \<and> childName s r = nm)"

text \<open>The real number that a finite \<^verbatim>\<open>float64\<close> stands for.\<close>

definition valof :: "float64 \<Rightarrow> real" where
  "valof x = (case x of Finite m e \<Rightarrow> real_of_int m * 2 powi e | _ \<Rightarrow> 0)"

text \<open>One iteration of the second loop of \<^verbatim>\<open>restartAll\<close>.\<close>

definition createOne :: "ref \<Rightarrow> Supervisor \<Rightarrow> Supervisor" where
  "createOne ch s =
     (let (nc, s1) = newChild (spec (heap s ch)) s;
          s2 = setRestartCount nc (restartCount (heap s ch) + 1) s1
      in s2\<lparr>childMap := (childMap s2)(childName s ch := Some nc)\<rparr>)"

section \<open>Properties\<close>

subsection \<open>Exits that warrant no restart\<close>

lemma shouldRestart_emitEvent [simp]:
  "shouldRestart exit (emitEvent ev s) = shouldRestart exit s"
  by (simp add: shouldRestart_def emitEvent_def)

lemma handleChildExit_no_restart:
  "\<not> shouldRestart exit s \<Longrightarrow>
   handleChildExit e exit s = Some (None, emitEvent (exitEvent exit s) s)"
  by (simp add: handleChildExit_def Let_def)

text \<open>
  Claim C10. \<^verbatim>\<open>RestartType\<close> is an integer type, so a spec can carry a value outside
  \<open>{Permanent, Transient, Temporary}\<close>. The exit of such a child is never restarted
  and is processed as the exit of a \<open>Temporary\<close> child is: the only effect of
  \<^verbatim>\<open>handleChildExit\<close> is the \<^verbatim>\<open>ChildExited\<close> or \<^verbatim>\<open>ChildPanicked\<close> event, and the
  result is nil.
\<close>

theorem C10_undefined_restart_type:
  assumes "Restart (spec (heap s (child exit))) \<notin> {Permanent, Transient, Temporary}"
      and "Restart (spec (heap t (child exit))) = Temporary"
  shows "\<not> shouldRestart exit s
       \<and> handleChildExit e exit s = Some (None, emitEvent (exitEvent exit s) s)
       \<and> handleChildExit e exit t = Some (None, emitEvent (exitEvent exit t) t)"
proof -
  have s: "\<not> shouldRestart exit s"
    using assms(1) by (simp add: shouldRestart_def Let_def)
  have t: "\<not> shouldRestart exit t"
    using assms(2)
    by (simp add: shouldRestart_def Let_def Permanent_def Transient_def Temporary_def)
  show ?thesis
    using s t by (simp add: handleChildExit_no_restart)
qed

theorem C10_undefined_restart_type_witness:
  "(let s = snd (doAddChild \<lparr>Name = ''w'', Restart = 7\<rparr> (New OneForOne []));
        t = snd (doAddChild \<lparr>Name = ''w'', Restart = Temporary\<rparr> (New OneForOne []));
        exit = \<lparr>child = 0, err = Some ''boom'', panic = True, stackTrace = ''trace''\<rparr>;
        e = \<lparr>now = 0, f2i_overflow = 0\<rparr>
    in Restart (spec (heap s (child exit))) \<notin> {Permanent, Transient, Temporary}
     \<and> Restart (spec (heap t (child exit))) = Temporary
     \<and> \<not> shouldRestart exit s
     \<and> handleChildExit e exit s = Some (None, emitEvent (exitEvent exit s) s)
     \<and> handleChildExit e exit t = Some (None, emitEvent (exitEvent exit t) t))"
proof -
  let ?s = "snd (doAddChild \<lparr>Name = ''w'', Restart = 7\<rparr> (New OneForOne []))"
  let ?t = "snd (doAddChild \<lparr>Name = ''w'', Restart = Temporary\<rparr> (New OneForOne []))"
  let ?x = "\<lparr>child = 0, err = Some ''boom'', panic = True, stackTrace = ''trace''\<rparr>"
  have a: "Restart (spec (heap ?s (child ?x))) \<notin> {Permanent, Transient, Temporary}"
    by code_simp
  have b: "Restart (spec (heap ?t (child ?x))) = Temporary"
    by code_simp
  show ?thesis
    using a b
      C10_undefined_restart_type [OF a b, of "\<lparr>now = 0, f2i_overflow = 0\<rparr>"]
    by (simp add: Let_def)
qed

subsection \<open>The exponential policy\<close>

lemma excessBits_small: "a < 2 ^ 53 \<Longrightarrow> excessBits a = 0"
  by (subst excessBits.simps) simp

lemma float64_of_int64_exact: "\<bar>d\<bar> < 2 ^ 53 \<Longrightarrow> float64_of_int64 d = d"
  by (simp add: float64_of_int64_def Let_def excessBits_small mult_sgn_abs)

lemma exponential_in_range:
  assumes "\<bar>initial\<bar> < 2 ^ 53" and "0 \<le> r" and "r < 1024"
      and "- (2 ^ 63) \<le> initial * 2 ^ nat r" and "initial * 2 ^ nat r < 2 ^ 63"
  shows "ComputeDelay e (ExponentialBackoff initial mx) r = min (initial * 2 ^ nat r) mx"
  using assms
  by (simp add: ExponentialBackoff_def exponentialProduct_def Let_def min_def
      float64_of_int64_exact)

lemma exponential_overflow:
  assumes "\<bar>initial\<bar> < 2 ^ 53" and "0 \<le> r" and "2 ^ 63 \<le> initial * 2 ^ nat r"
      and "f2i_overflow e \<le> mx"
  shows "ComputeDelay e (ExponentialBackoff initial mx) r = f2i_overflow e"
  using assms
  by (simp add: ExponentialBackoff_def exponentialProduct_def Let_def float64_of_int64_exact)

lemma float64_of_int64_rounds:
  "float64_of_int64 (2 ^ 53 + 1) = 2 ^ 53
   \<and> float64_of_int64 (2 ^ 53 + 3) = 2 ^ 53 + 4
   \<and> float64_of_int64 (2 ^ 61 + 257) = 2 ^ 61 + 512
   \<and> float64_of_int64 (- (2 ^ 53) - 1) = - (2 ^ 53)
   \<and> float64_of_int64 (2 ^ 63 - 1) = 2 ^ 63
   \<and> float64_of_int64 (- (2 ^ 63)) = - (2 ^ 63)
   \<and> exponentialProduct \<lparr>now = 0, f2i_overflow = - (2 ^ 63)\<rparr> (2 ^ 53 + 1) 0 = 2 ^ 53
   \<and> exponentialProduct \<lparr>now = 0, f2i_overflow = - (2 ^ 63)\<rparr> (2 ^ 63 - 1) 0 = - (2 ^ 63)"
  by code_simp

lemma exponential_le_max: "ComputeDelay e (ExponentialBackoff initial mx) r \<le> mx"
  by (simp add: ExponentialBackoff_def Let_def)

text \<open>
  Claim C6. \<^verbatim>\<open>ExponentialBackoff(initial, max).ComputeDelay(restarts)\<close> is
  \<open>min (initial * 2^restarts) max\<close> and saturates to \<open>max\<close> when the product leaves
  the range of a duration. The code caps with \<^verbatim>\<open>if delay > e.max\<close> after the conversion
  \<^verbatim>\<open>time.Duration(float64)\<close>; where that conversion yields the smallest \<^verbatim>\<open>int64\<close> on
  overflow (amd64), the default policy \<open>(100 ms, 5 s)\<close> returns \<open>5 s\<close> at 36 restarts
  and \<open>-2^63\<close> at 37: the cap is not applied and the delay is negative.
\<close>

theorem C6_exponential_overflow:
  "(let amd64 = \<lparr>now = 0, f2i_overflow = - (2 ^ 63)\<rparr>;
        policy = ExponentialBackoff (100 * millisecond) (5 * second)
    in ComputeDelay amd64 policy 36 = 5 * second
     \<and> ComputeDelay amd64 policy 37 = - (2 ^ 63)
     \<and> ComputeDelay amd64 policy 37 < 0
     \<and> min (100 * millisecond * 2 ^ 37) (5 * second) = 5 * second)"
  by code_simp

subsection \<open>Stopping\<close>

text \<open>
  Claim C3. After the supervisor has stopped, \<^verbatim>\<open>Start\<close>, \<^verbatim>\<open>AddChild\<close>, \<^verbatim>\<open>RemoveChild\<close>
  and \<^verbatim>\<open>RestartChild\<close> return \<^verbatim>\<open>ErrSupervisorStopped\<close>. In the code only the fatal
  branch of \<^verbatim>\<open>run\<close> sets \<^verbatim>\<open>s.stopped\<close>; \<^verbatim>\<open>Stop\<close> does not. On a fresh supervisor,
  \<^verbatim>\<open>Stop\<close> returns nil with the loop ended and \<^verbatim>\<open>stopped\<close> still false, and the
  \<^verbatim>\<open>Start\<close> that follows returns nil.
\<close>

theorem C3_start_after_stop:
  "(let s0 = New OneForOne [];
        s1 = snd (the (Stop s0))
    in Stop s0 \<noteq> None \<and> fst (the (Stop s0)) = None
     \<and> doneClosed s1 \<and> cancelled s1 \<and> \<not> stopped s1
     \<and> fst (Start s1) = None
     \<and> fst (Start s1) \<noteq> Some ErrSupervisorStopped)"
  by code_simp

subsection \<open>The intensity check\<close>

lemma findIndex_None_iff: "findIndex P xs = None \<longleftrightarrow> (\<forall>x\<in>set xs. \<not> P x)"
  by (induction xs) auto

lemma findIndex_Some_less: "findIndex P xs = Some i \<Longrightarrow> i < length xs"
  by (induction xs arbitrary: i) (auto split: if_splits)

lemma drop_findIndex_sorted:
  "sorted xs \<Longrightarrow> findIndex (\<lambda>t. c < t) xs = Some i \<Longrightarrow> drop i xs = filter (\<lambda>t. (c::int) < t) xs"
proof (induction xs arbitrary: i)
  case Nil
  then show ?case by simp
next
  case (Cons x xs)
  show ?case
  proof (cases "c < x")
    case True
    with Cons.prems have "i = 0" and all: "\<forall>t\<in>set xs. c < t" by auto
    then show ?thesis using True by simp
  next
    case False
    with Cons.prems obtain j where j: "findIndex (\<lambda>t. c < t) xs = Some j" and i: "i = Suc j"
      by auto
    from Cons.prems have "sorted xs" by simp
    from Cons.IH [OF this j] show ?thesis using False i by simp
  qed
qed

lemma checkRestartIntensity_fields [simp]:
  "restartWindow (snd (checkRestartIntensity e s)) = restartWindow s"
  "maxRestarts (snd (checkRestartIntensity e s)) = maxRestarts s"
  "children (snd (checkRestartIntensity e s)) = children s"
  "childMap (snd (checkRestartIntensity e s)) = childMap s"
  "heap (snd (checkRestartIntensity e s)) = heap s"
  "nextRef (snd (checkRestartIntensity e s)) = nextRef s"
  "events (snd (checkRestartIntensity e s)) = events s"
  "slept (snd (checkRestartIntensity e s)) = slept s"
  "strategy (snd (checkRestartIntensity e s)) = strategy s"
  "backoff (snd (checkRestartIntensity e s)) = backoff s"
  by (simp_all add: checkRestartIntensity_def Let_def)

lemma checkRestartIntensity_ok:
  "fst (checkRestartIntensity e s) \<longleftrightarrow>
   int (length (restartHistory (snd (checkRestartIntensity e s)))) \<le> maxRestarts s"
  by (simp add: checkRestartIntensity_def Let_def del: drop_append length_drop)

lemma checkRestartIntensity_history:
  assumes w: "0 < restartWindow s"
      and srt: "sorted (restartHistory s)"
      and le: "\<forall>t\<in>set (restartHistory s). t \<le> now e"
  shows "restartHistory (snd (checkRestartIntensity e s)) =
         filter (\<lambda>t. now e - restartWindow s < t) (restartHistory s @ [now e])"
proof -
  let ?h = "restartHistory s @ [now e]"
  let ?c = "now e - restartWindow s"
  have sorted: "sorted ?h"
    using srt le by (simp add: sorted_append)
  have "\<not> (\<forall>t\<in>set ?h. \<not> ?c < t)"
    using w by simp
  then obtain i where i: "findIndex (\<lambda>t. ?c < t) ?h = Some i"
    using findIndex_None_iff [of "\<lambda>t. ?c < t" ?h] by (cases "findIndex (\<lambda>t. ?c < t) ?h") auto
  have "drop i ?h = filter (\<lambda>t. ?c < t) ?h"
    by (rule drop_findIndex_sorted [OF sorted i])
  then show ?thesis
    using i by (simp add: checkRestartIntensity_def Let_def)
qed

lemma checkRestartIntensity_invariant:
  assumes "0 < restartWindow s" and "sorted (restartHistory s)"
      and "\<forall>t\<in>set (restartHistory s). t \<le> now e"
  shows "sorted (restartHistory (snd (checkRestartIntensity e s)))"
    and "\<forall>t\<in>set (restartHistory (snd (checkRestartIntensity e s))).
           now e - restartWindow s < t \<and> t \<le> now e"
proof -
  have "sorted (restartHistory s @ [now e])"
    using assms by (simp add: sorted_append)
  then show "sorted (restartHistory (snd (checkRestartIntensity e s)))"
    unfolding checkRestartIntensity_history [OF assms] by (rule sorted_wrt_filter)
  show "\<forall>t\<in>set (restartHistory (snd (checkRestartIntensity e s))).
           now e - restartWindow s < t \<and> t \<le> now e"
    unfolding checkRestartIntensity_history [OF assms] using assms(3) by auto
qed

lemma intensityChecks_window:
  assumes "0 < restartWindow s" and "sorted (restartHistory s)"
      and "\<forall>t\<in>set (restartHistory s). t \<le> now (hd es)"
      and "sorted (map now es)" and "es \<noteq> []"
  shows "\<forall>t\<in>set (restartHistory (intensityChecks es s)).
           now (last es) - restartWindow s < t \<and> t \<le> now (last es)"
  using assms
proof (induction es arbitrary: s)
  case Nil
  then show ?case by simp
next
  case (Cons e es)
  let ?s = "snd (checkRestartIntensity e s)"
  from Cons.prems have pre: "0 < restartWindow s" "sorted (restartHistory s)"
    "\<forall>t\<in>set (restartHistory s). t \<le> now e" by simp_all
  note inv = checkRestartIntensity_invariant [OF pre]
  show ?case
  proof (cases es)
    case Nil
    then show ?thesis using inv(2) by simp
  next
    case (Cons e' es')
    with Cons.prems(4) have "now e \<le> now e'" by simp
    with inv(2) have "\<forall>t\<in>set (restartHistory ?s). t \<le> now (hd es)"
      using Cons by fastforce
    moreover have "sorted (map now es)" using Cons.prems(4) by simp
    moreover have "es \<noteq> []" using Cons by simp
    ultimately have "\<forall>t\<in>set (restartHistory (intensityChecks es ?s)).
           now (last es) - restartWindow ?s < t \<and> t \<le> now (last es)"
      using Cons.IH [of ?s] pre(1) inv(1) by simp
    then show ?thesis using Cons by simp
  qed
qed

text \<open>
  Claim C7. For a supervisor with a positive \<^verbatim>\<open>restartWindow\<close>, after each invocation
  of the intensity check the \<^verbatim>\<open>restartHistory\<close> holds only timestamps \<open>t\<close> with
  \<open>now - restartWindow < t \<le> now\<close>. The history starts empty (\<^verbatim>\<open>New\<close>) and is
  written by \<^verbatim>\<open>checkRestartIntensity\<close> only; the readings of the clock do not decrease.
\<close>

theorem C7_history_in_window:
  assumes "0 < restartWindow s" and "restartHistory s = []"
      and "sorted (map now es)" and "es \<noteq> []"
  shows "\<forall>t\<in>set (restartHistory (intensityChecks es s)).
           now (last es) - restartWindow s < t \<and> t \<le> now (last es)"
  using intensityChecks_window [of s es] assms by simp


theorem C7_history_in_window_witness:
  "(let s = New OneForOne [WithIntensity 3 100];
        es = [\<lparr>now = 10, f2i_overflow = 0\<rparr>,
              \<lparr>now = 50, f2i_overflow = 0\<rparr>,
              \<lparr>now = 130, f2i_overflow = 0\<rparr>]
    in 0 < restartWindow s \<and> restartHistory s = [] \<and> sorted (map now es) \<and> es \<noteq> []
     \<and> restartHistory (intensityChecks es s) = [50, 130]
     \<and> list_all (\<lambda>t. now (last es) - restartWindow s < t \<and> t \<le> now (last es))
          (restartHistory (intensityChecks es s)))"
proof -
  let ?s = "New OneForOne [WithIntensity 3 100]"
  let ?es = "[\<lparr>now = 10, f2i_overflow = 0\<rparr>,
              \<lparr>now = 50, f2i_overflow = 0\<rparr>,
              \<lparr>now = 130, f2i_overflow = 0\<rparr>]"
  have h1: "0 < restartWindow ?s" by code_simp
  have h2: "restartHistory ?s = []" by code_simp
  have h3: "sorted (map now ?es)" by code_simp
  have h4: "?es \<noteq> []" by simp
  have r: "restartHistory (intensityChecks ?es ?s) = [50, 130]" by code_simp
  note T = C7_history_in_window [OF h1 h2 h3 h4]
  show ?thesis
    unfolding Let_def using T h1 h2 h3 h4 r by (simp add: list_all_iff)
qed

lemma stopAll_closed:
  "\<forall>r\<in>set rs. cancel (heap s r) \<Longrightarrow> stopAll rs s = Some (s\<lparr>heap := stoppedHeap rs (heap s)\<rparr>)"
proof (induction rs arbitrary: s)
  case Nil
  then show ?case by (simp add: stoppedHeap_def)
next
  case (Cons r rs)
  let ?s = "s\<lparr>heap := (heap s)(r := (heap s r)\<lparr>child.stopped := True\<rparr>)\<rparr>"
  have st: "stop r s = Some ?s"
    using Cons.prems by (simp add: stop_def)
  have "\<forall>x\<in>set rs. cancel (heap ?s x)"
    using Cons.prems by simp
  from Cons.IH [OF this] have "stopAll rs ?s = Some (?s\<lparr>heap := stoppedHeap rs (heap ?s)\<rparr>)" .
  moreover have "stoppedHeap rs (heap ?s) = stoppedHeap (r # rs) (heap s)"
    by (auto simp: stoppedHeap_def fun_eq_iff)
  ultimately show ?case
    using st by simp
qed

lemma checkRestartIntensity_state:
  "snd (checkRestartIntensity e s) =
   s\<lparr>restartHistory := restartHistory (snd (checkRestartIntensity e s))\<rparr>"
  by (simp add: checkRestartIntensity_def Let_def)

lemma checkRestartIntensity_emitEvent:
  "restartHistory (snd (checkRestartIntensity e (emitEvent ev s))) =
     restartHistory (snd (checkRestartIntensity e s))"
  "fst (checkRestartIntensity e (emitEvent ev s)) = fst (checkRestartIntensity e s)"
  by (simp_all add: checkRestartIntensity_def Let_def emitEvent_def)

lemma executeStrategy_not_intensity:
  "executeStrategy exit s \<noteq> Some (Some ErrIntensityExceeded, s')"
  by (auto simp: executeStrategy_def restartOne_def restartAll_def restartRestForOne_def
      Let_def split: option.splits prod.splits)

lemma handleChildExit_fatal:
  assumes "shouldRestart exit s" and "\<not> fst (checkRestartIntensity e s)"
  shows "handleChildExit e exit s =
         Some (Some ErrIntensityExceeded,
               emitEvent (intensityEvent exit s)
                 ((emitEvent (exitEvent exit s) s)
                    \<lparr>restartHistory := restartHistory (snd (checkRestartIntensity e s))\<rparr>))"
proof -
  let ?s1 = "emitEvent (exitEvent exit s) s"
  obtain ok s2 where c: "checkRestartIntensity e ?s1 = (ok, s2)"
    by (cases "checkRestartIntensity e ?s1")
  have ok: "\<not> ok"
    using assms(2) c checkRestartIntensity_emitEvent(2) [of e "exitEvent exit s" s] by simp
  have "s2 = ?s1\<lparr>restartHistory := restartHistory (snd (checkRestartIntensity e s))\<rparr>"
    using c checkRestartIntensity_state [of e ?s1]
      checkRestartIntensity_emitEvent(1) [of e "exitEvent exit s" s] by simp
  moreover have "intensityEvent exit s2 = intensityEvent exit s"
    using c checkRestartIntensity_fields(5) [of e ?s1]
    by (simp add: intensityEvent_def childName_def emitEvent_def)
  ultimately show ?thesis
    using assms(1) c ok by (simp add: handleChildExit_def Let_def)
qed

lemma handleChildExit_not_fatal:
  assumes "fst (checkRestartIntensity e s)"
  shows "handleChildExit e exit s \<noteq> Some (Some ErrIntensityExceeded, s')"
proof (cases "shouldRestart exit s")
  case False
  then show ?thesis by (simp add: handleChildExit_no_restart)
next
  case True
  let ?s1 = "emitEvent (exitEvent exit s) s"
  obtain ok s2 where c: "checkRestartIntensity e ?s1 = (ok, s2)"
    by (cases "checkRestartIntensity e ?s1")
  have ok: "ok"
    using assms c checkRestartIntensity_emitEvent(2) [of e "exitEvent exit s" s] by simp
  show ?thesis
    using True c ok by (simp add: handleChildExit_def Let_def executeStrategy_not_intensity)
qed

lemma intensityResults_trip:
  assumes "0 < restartWindow s" and "sorted (restartHistory s)"
      and "\<forall>t\<in>set (restartHistory s). t \<le> now (hd es)"
      and "sorted (map now es)" and "es \<noteq> []"
      and "\<forall>t\<in>set (restartHistory s). now (last es) - restartWindow s < t"
      and "int (length (restartHistory s) + length es) = maxRestarts s + 1"
      and "now (last es) - restartWindow s < now (hd es)"
  shows "intensityResults es s = replicate (length es - 1) True @ [False]"
  using assms
proof (induction es arbitrary: s)
  case Nil
  then show ?case by simp
next
  case (Cons e es)
  let ?s = "snd (checkRestartIntensity e s)"
  from Cons.prems have pre: "0 < restartWindow s" "sorted (restartHistory s)"
    "\<forall>t\<in>set (restartHistory s). t \<le> now e" by simp_all
  have last: "now e \<le> now (last (e # es))"
    using Cons.prems(4) by (cases es) (auto simp: sorted_append dest: last_in_set)
  have "\<forall>t\<in>set (restartHistory s). now e - restartWindow s < t"
    using Cons.prems(6) last by fastforce
  then have h: "restartHistory ?s = restartHistory s @ [now e]"
    using checkRestartIntensity_history [OF pre] pre(1) by simp
  have ok: "fst (checkRestartIntensity e s) \<longleftrightarrow> es \<noteq> []"
    using checkRestartIntensity_ok [of e s] h Cons.prems(7) by (cases es) auto
  show ?case
  proof (cases es)
    case Nil
    then show ?thesis using ok by simp
  next
    case (Cons e' es')
    have "now e \<le> now e'" using Cons.prems(4) Cons by simp
    then have a: "\<forall>t\<in>set (restartHistory ?s). t \<le> now (hd es)"
      using h pre(3) Cons by auto
    have b: "sorted (restartHistory ?s)"
      using h pre by (simp add: sorted_append)
    have c: "\<forall>t\<in>set (restartHistory ?s). now (last es) - restartWindow ?s < t"
      using h Cons.prems(6,8) Cons by auto
    have c': "now (last es) - restartWindow ?s < now (hd es)"
      using Cons.prems(8) Cons \<open>now e \<le> now e'\<close> by auto
    have d: "int (length (restartHistory ?s) + length es) = maxRestarts ?s + 1"
      using h Cons.prems(7) by simp
    have "intensityResults es ?s = replicate (length es - 1) True @ [False]"
      using Cons.IH [of ?s] pre(1) a b c c' d Cons.prems(4) Cons by simp
    then show ?thesis using ok Cons by simp
  qed
qed

lemma intensity_trips_at_Suc_k:
  assumes "0 < restartWindow s" and "restartHistory s = []"
      and "sorted (map now es)" and "int (length es) = maxRestarts s + 1" and "es \<noteq> []"
      and "now (last es) - restartWindow s < now (hd es)"
  shows "intensityResults es s = replicate (nat (maxRestarts s)) True @ [False]"
proof -
  have "intensityResults es s = replicate (length es - 1) True @ [False]"
    using assms by (intro intensityResults_trip) simp_all
  moreover have "length es - 1 = nat (maxRestarts s)"
    using assms(4) by linarith
  ultimately show ?thesis by simp
qed

text \<open>
  The intensity check for a positive window and a clock that does not go back: the
  check appends the current time, keeps exactly the entries later than
  \<open>now - restartWindow\<close>, and \<^verbatim>\<open>handleChildExit\<close> returns \<^verbatim>\<open>ErrIntensityExceeded\<close>
  exactly when the kept count exceeds \<^verbatim>\<open>maxRestarts\<close>. The fatal exit emits
  \<^verbatim>\<open>SupervisorFailedIntensity\<close> after the exit event; when every registered record has
  a cancel function the loop ends with the error recorded.
\<close>

lemma intensity_limit_positive_window:
  assumes w: "0 < restartWindow s"
      and srt: "sorted (restartHistory s)"
      and le: "\<forall>t\<in>set (restartHistory s). t \<le> now e"
      and sr: "shouldRestart exit s"
      and kept: "kept = filter (\<lambda>t. now e - restartWindow s < t) (restartHistory s @ [now e])"
  shows "restartHistory (snd (checkRestartIntensity e s)) = kept
       \<and> (fst (checkRestartIntensity e s) \<longleftrightarrow> int (length kept) \<le> maxRestarts s)
       \<and> ((\<exists>s1. handleChildExit e exit s = Some (Some ErrIntensityExceeded, s1))
            \<longleftrightarrow> maxRestarts s < int (length kept))
       \<and> ((\<forall>t\<in>set (restartHistory s). now e - restartWindow s < t) \<longrightarrow>
            (maxRestarts s < int (length kept) \<longleftrightarrow> maxRestarts s \<le> int (length (restartHistory s))))
       \<and> (maxRestarts s < int (length kept) \<longrightarrow>
            (\<exists>s1 s2. handleChildExit e exit s = Some (Some ErrIntensityExceeded, s1)
               \<and> events s1 = events s @
                   [\<lparr>ChildName = childName s (child exit),
                      Type = (if panic exit then ChildPanicked else ChildExited),
                      Err = err exit, StackTrace = stackTrace exit\<rparr>,
                    \<lparr>ChildName = childName s (child exit), Type = SupervisorFailedIntensity,
                      Err = None, StackTrace = []\<rparr>]
               \<and> restartHistory s1 = kept \<and> children s1 = children s
               \<and> childMap s1 = childMap s \<and> slept s1 = slept s
               \<and> ((\<forall>r\<in>set (children s). cancel (heap s r)) \<longrightarrow>
                    runExit e exit s = Some s2
                  \<and> finalErr s2 = Some ErrIntensityExceeded \<and> stopped s2 \<and> doneClosed s2
                  \<and> events s2 = events s1
                  \<and> Wait s2 = Some (Some ErrIntensityExceeded)
                  \<and> map_option fst (Stop s2) = Some (Some ErrIntensityExceeded))))"
proof -
  have h: "restartHistory (snd (checkRestartIntensity e s)) = kept"
    using checkRestartIntensity_history [OF w srt le] kept by simp
  have ok: "fst (checkRestartIntensity e s) \<longleftrightarrow> int (length kept) \<le> maxRestarts s"
    using checkRestartIntensity_ok [of e s] h by simp
  have iff: "(\<exists>s1. handleChildExit e exit s = Some (Some ErrIntensityExceeded, s1))
            \<longleftrightarrow> maxRestarts s < int (length kept)"
  proof (cases "fst (checkRestartIntensity e s)")
    case True
    then show ?thesis using handleChildExit_not_fatal [of e s exit] ok by auto
  next
    case False
    then show ?thesis using handleChildExit_fatal [OF sr False] ok by auto
  qed
  have inwin: "(\<forall>t\<in>set (restartHistory s). now e - restartWindow s < t) \<longrightarrow>
            (maxRestarts s < int (length kept) \<longleftrightarrow> maxRestarts s \<le> int (length (restartHistory s)))"
  proof
    assume "\<forall>t\<in>set (restartHistory s). now e - restartWindow s < t"
    then have "kept = restartHistory s @ [now e]"
      using w kept by simp
    then show "maxRestarts s < int (length kept) \<longleftrightarrow> maxRestarts s \<le> int (length (restartHistory s))"
      by auto
  qed
  have fatal: "maxRestarts s < int (length kept) \<longrightarrow>
            (\<exists>s1 s2. handleChildExit e exit s = Some (Some ErrIntensityExceeded, s1)
               \<and> events s1 = events s @
                   [\<lparr>ChildName = childName s (child exit),
                      Type = (if panic exit then ChildPanicked else ChildExited),
                      Err = err exit, StackTrace = stackTrace exit\<rparr>,
                    \<lparr>ChildName = childName s (child exit), Type = SupervisorFailedIntensity,
                      Err = None, StackTrace = []\<rparr>]
               \<and> restartHistory s1 = kept \<and> children s1 = children s
               \<and> childMap s1 = childMap s \<and> slept s1 = slept s
               \<and> ((\<forall>r\<in>set (children s). cancel (heap s r)) \<longrightarrow>
                    runExit e exit s = Some s2
                  \<and> finalErr s2 = Some ErrIntensityExceeded \<and> stopped s2 \<and> doneClosed s2
                  \<and> events s2 = events s1
                  \<and> Wait s2 = Some (Some ErrIntensityExceeded)
                  \<and> map_option fst (Stop s2) = Some (Some ErrIntensityExceeded)))"
  proof
    assume "maxRestarts s < int (length kept)"
    then have nok: "\<not> fst (checkRestartIntensity e s)" using ok by simp
    let ?s1 = "emitEvent (intensityEvent exit s)
                 ((emitEvent (exitEvent exit s) s)\<lparr>restartHistory := kept\<rparr>)"
    let ?s1' = "?s1\<lparr>finalErr := Some ErrIntensityExceeded, stopped := True, cancelled := True\<rparr>"
    let ?s2 = "?s1'\<lparr>heap := stoppedHeap (children s) (heap s), doneClosed := True\<rparr>"
    have hce: "handleChildExit e exit s = Some (Some ErrIntensityExceeded, ?s1)"
      using handleChildExit_fatal [OF sr nok] h by simp
    have re: "runExit e exit s = Some ?s2" if cn: "\<forall>r\<in>set (children s). cancel (heap s r)"
    proof -
      have "\<forall>r\<in>set (children ?s1'). cancel (heap ?s1' r)"
        using cn by (simp add: emitEvent_def)
      from stopAll_closed [OF this]
      have "stopAll (children s) ?s1' =
            Some (?s1'\<lparr>heap := stoppedHeap (children s) (heap s)\<rparr>)"
        by (simp add: emitEvent_def)
      then show ?thesis
        using hce by (simp add: runExit_def runDeferred_def shutdownChildren_def emitEvent_def)
    qed
    have "events ?s1 = events s @
                   [\<lparr>ChildName = childName s (child exit),
                      Type = (if panic exit then ChildPanicked else ChildExited),
                      Err = err exit, StackTrace = stackTrace exit\<rparr>,
                    \<lparr>ChildName = childName s (child exit), Type = SupervisorFailedIntensity,
                      Err = None, StackTrace = []\<rparr>]"
      "restartHistory ?s1 = kept" "children ?s1 = children s" "childMap ?s1 = childMap s"
      "slept ?s1 = slept s"
      by (simp_all add: emitEvent_def exitEvent_def intensityEvent_def)
    moreover have "finalErr ?s2 = Some ErrIntensityExceeded" "stopped ?s2" "doneClosed ?s2"
      "events ?s2 = events ?s1"
      "Wait ?s2 = Some (Some ErrIntensityExceeded)"
      "map_option fst (Stop ?s2) = Some (Some ErrIntensityExceeded)"
      by (simp_all add: Wait_def Stop_def emitEvent_def)
    ultimately show "\<exists>s1 s2. handleChildExit e exit s = Some (Some ErrIntensityExceeded, s1)
               \<and> events s1 = events s @
                   [\<lparr>ChildName = childName s (child exit),
                      Type = (if panic exit then ChildPanicked else ChildExited),
                      Err = err exit, StackTrace = stackTrace exit\<rparr>,
                    \<lparr>ChildName = childName s (child exit), Type = SupervisorFailedIntensity,
                      Err = None, StackTrace = []\<rparr>]
               \<and> restartHistory s1 = kept \<and> children s1 = children s
               \<and> childMap s1 = childMap s \<and> slept s1 = slept s
               \<and> ((\<forall>r\<in>set (children s). cancel (heap s r)) \<longrightarrow>
                    runExit e exit s = Some s2
                  \<and> finalErr s2 = Some ErrIntensityExceeded \<and> stopped s2 \<and> doneClosed s2
                  \<and> events s2 = events s1
                  \<and> Wait s2 = Some (Some ErrIntensityExceeded)
                  \<and> map_option fst (Stop s2) = Some (Some ErrIntensityExceeded))"
      using hce re by blast
  qed
  show ?thesis
    using h ok iff inwin fatal by blast
qed


text \<open>
  Claim C4. For every restart-warranting exit the intensity check appends the current
  time, prunes the entries at or before \<open>now - restartWindow\<close> and is fatal exactly
  when the retained count exceeds \<^verbatim>\<open>maxRestarts\<close>. The scan of
  \<^verbatim>\<open>checkRestartIntensity\<close> (\<^verbatim>\<open>// Remove old entries outside the window\<close>) starts
  from \<^verbatim>\<open>start := 0\<close> and assigns the index of the first entry after the cutoff; when
  no entry is after the cutoff, \<^verbatim>\<open>start\<close> is still \<open>0\<close> and the whole history is
  kept. With \<^verbatim>\<open>WithIntensity(1, 0)\<close> that is always so: a child \<open>w\<close> fails at 10 s and
  is restarted, its replacement fails at 20 s. Both entries are at or before
  \<open>now - restartWindow = 20 s\<close>, none is retained once they are pruned, yet the
  history is \<open>[10 s, 20 s]\<close>, the exit is fatal and the supervisor ends with
  \<^verbatim>\<open>ErrIntensityExceeded\<close>.
\<close>

theorem C4_zero_window:
  "(let s0 = New OneForOne [WithIntensity 1 0, WithBackoff (ConstantBackoff millisecond)];
        s1 = snd (doAddChild \<lparr>Name = ''w'', Restart = Permanent\<rparr> s0);
        r2 = handleChildExit \<lparr>now = 10 * second, f2i_overflow = 0\<rparr>
               (the (runWithRecovery 0 (Returned (Some ''failed'')) s1)) s1;
        s2 = snd (the r2);
        e = \<lparr>now = 20 * second, f2i_overflow = 0\<rparr>;
        exit = the (runWithRecovery 1 (Returned (Some ''failed'')) s2);
        r3 = handleChildExit e exit s2;
        s3 = snd (the r3);
        s4 = the (runExit e exit s2)
    in maxRestarts s2 = 1 \<and> restartWindow s2 = 0
     \<and> map_option fst r2 = Some None \<and> children s2 = [1] \<and> restartHistory s2 = [10 * second]
     \<and> filter (\<lambda>t. \<not> t \<le> now e - restartWindow s2) (restartHistory s2 @ [now e]) = []
     \<and> map_option fst r3 = Some (Some ErrIntensityExceeded)
     \<and> restartHistory s3 = [10 * second, 20 * second]
     \<and> events s3 = events s2 @
          [\<lparr>ChildName = ''w'', Type = ChildExited, Err = Some ''failed'', StackTrace = []\<rparr>,
           \<lparr>ChildName = ''w'', Type = SupervisorFailedIntensity, Err = None, StackTrace = []\<rparr>]
     \<and> runExit e exit s2 \<noteq> None
     \<and> finalErr s4 = Some ErrIntensityExceeded \<and> stopped s4 \<and> doneClosed s4
     \<and> Wait s4 = Some (Some ErrIntensityExceeded))"
  by code_simp

text \<open>
  The fatal branch of \<^verbatim>\<open>run\<close> ends in \<^verbatim>\<open>shutdownChildren\<close>, which calls \<^verbatim>\<open>stop\<close> on
  every registered record. A record built by \<^verbatim>\<open>WithChildren\<close> has no cancel function:
  with one of them registered, the loop panics there and \<^verbatim>\<open>s.done\<close> is never closed.
\<close>

lemma fatal_exit_with_initial_child:
  "(let s0 = New OneForOne [WithIntensity 0 minute,
                            WithChildren [\<lparr>Name = ''a'', Restart = Permanent\<rparr>]];
        s1 = snd (doAddChild \<lparr>Name = ''b'', Restart = Permanent\<rparr> (snd (Start s0)));
        e = \<lparr>now = 5, f2i_overflow = 0\<rparr>;
        exit = the (runWithRecovery 1 (Returned (Some ''failed'')) s1)
    in children s1 = [0, 1] \<and> \<not> cancel (heap s1 0) \<and> cancel (heap s1 1)
     \<and> map_option fst (handleChildExit e exit s1) = Some (Some ErrIntensityExceeded)
     \<and> shutdownChildren (snd (the (handleChildExit e exit s1))) = None
     \<and> runExit e exit s1 = None)"
  by code_simp

subsection \<open>The jitter policy\<close>

lemma excessBits_upper: "a < 2 ^ (53 + excessBits a)"
proof (induction a rule: excessBits.induct)
  case (1 a)
  show ?case
  proof (cases "a < 2 ^ 53")
    case True
    then show ?thesis by (subst excessBits.simps) simp
  next
    case False
    then have "a div 2 < 2 ^ (53 + excessBits (a div 2))" using 1 by simp
    then have "a < 2 * 2 ^ (53 + excessBits (a div 2))" by linarith
    moreover have "excessBits a = Suc (excessBits (a div 2))"
      using False by (subst excessBits.simps) simp
    ultimately show ?thesis by (simp add: power_add)
  qed
qed

lemma excessBits_lower: "excessBits a = Suc j \<Longrightarrow> 2 ^ (53 + j) \<le> a"
proof (induction a arbitrary: j rule: excessBits.induct)
  case (1 a)
  have big: "\<not> a < 2 ^ 53"
    using "1.prems" by (subst (asm) excessBits.simps) (simp split: if_splits)
  then have eq: "excessBits (a div 2) = j"
    using "1.prems" by (subst (asm) excessBits.simps) simp
  show ?case
  proof (cases j)
    case 0
    then show ?thesis using big by simp
  next
    case (Suc j')
    then have "2 ^ (53 + j') \<le> a div 2" using 1 big eq by simp
    then have "2 * 2 ^ (53 + j') \<le> a" by linarith
    then show ?thesis using Suc by (simp add: power_add)
  qed
qed














lemma round53_int64:
  assumes "\<bar>b\<bar> \<le> 2 ^ 63"
  shows "\<exists>n g. round53 b 0 = Finite n g"
proof -
  define a where "a = \<bar>b\<bar>"
  define x where "x = excessBits a"
  define q where "q = a div 2 ^ x"
  define r where "r = a mod 2 ^ x"
  define n where "n = (if 2 * r > 2 ^ x \<or> (2 * r = 2 ^ x \<and> odd q) then q + 1 else q)"
  have k: "nat (max (int x) (- 1074 - 0)) = x" by simp
  have "a < 2 ^ (53 + x)" unfolding x_def by (rule excessBits_upper)
  then have lt: "a < 2 ^ 53 * 2 ^ x" by (simp add: power_add)
  have "a div 2 ^ x < 2 ^ 53"
  proof (rule ccontr)
    assume "\<not> a div 2 ^ x < 2 ^ 53"
    then have "2 ^ 53 * 2 ^ x \<le> (a div 2 ^ x) * 2 ^ x"
      by (intro mult_right_mono) simp_all
    moreover have "a = (a div 2 ^ x) * 2 ^ x + a mod 2 ^ x" by (rule div_mult_mod_eq [symmetric])
    moreover have "0 \<le> a mod (2::int) ^ x" by simp
    ultimately show False using lt by linarith
  qed
  then have n53: "n \<le> 2 ^ 53" by (simp add: n_def q_def)
  have x11: "x \<le> 11"
  proof (cases x)
    case 0
    then show ?thesis by simp
  next
    case (Suc j)
    then have "2 ^ (53 + j) \<le> a" using excessBits_lower [of a j] by (simp add: x_def)
    then have "(2::int) ^ (53 + j) \<le> 2 ^ 63" using assms by (simp add: a_def)
    then have "53 + j \<le> 63" by (rule power_le_imp_le_exp [rotated]) simp
    then show ?thesis using Suc by simp
  qed
  have "n * 2 ^ x \<le> 2 ^ 53 * 2 ^ x" using n53 by (intro mult_right_mono) simp_all
  also have "\<dots> \<le> 2 ^ 53 * 2 ^ 11"
    using x11 by (intro mult_left_mono power_increasing) simp_all
  finally have "\<not> 2 ^ 1024 \<le> n * 2 ^ x" by simp
  then show ?thesis
    unfolding round53_def Let_def a_def [symmetric] k x_def [symmetric]
      q_def [symmetric] r_def [symmetric] n_def [symmetric]
    by (simp add: nat_add_distrib)
qed

text \<open>
  \<open>float64_of_int64\<close>, the conversion used for the exponential policy, is \<open>round53\<close> at
  exponent 0.
\<close>

lemma round53_float64_of_int64:
  assumes "\<bar>d\<bar> \<le> 2 ^ 63"
  shows "\<exists>n x. round53 d 0 = Finite n (int x) \<and> float64_of_int64 d = n * 2 ^ x"
proof -
  define a where "a = \<bar>d\<bar>"
  define x where "x = excessBits a"
  define q where "q = a div 2 ^ x"
  define r where "r = a mod 2 ^ x"
  define n where "n = (if 2 * r > 2 ^ x \<or> (2 * r = 2 ^ x \<and> odd q) then q + 1 else q)"
  have k: "nat (max (int x) (- 1074 - 0)) = x" by simp
  from round53_int64 [OF assms] obtain n' g' where fin: "round53 d 0 = Finite n' g'" by blast
  have "round53 d 0 = (if 2 ^ 1024 \<le> n * 2 ^ x then Infinity (d < 0) else Finite (sgn d * n) (int x))"
    unfolding round53_def Let_def a_def [symmetric] k x_def [symmetric]
      q_def [symmetric] r_def [symmetric] n_def [symmetric]
    by (simp add: nat_add_distrib)
  then have "round53 d 0 = Finite (sgn d * n) (int x)"
    using fin by (simp split: if_splits)
  moreover have "float64_of_int64 d = sgn d * n * 2 ^ x"
    unfolding float64_of_int64_def Let_def a_def [symmetric] x_def [symmetric]
      q_def [symmetric] r_def [symmetric] n_def [symmetric]
    by simp
  ultimately show ?thesis by blast
qed










text \<open>
  From \<open>2^53\<close> on, \<^verbatim>\<open>float64(baseDelay)\<close> is itself rounded: with base delay
  \<open>2^61 + 257\<close>, factor \<open>1/2\<close> and sample 0 the jitter is \<open>2^60 + 256\<close> in size,
  more than \<open>\<lceil>|b| * c\<rceil> = 2^60 + 129\<close>.
\<close>

lemma jitter_large_base:
  "(let e = \<lparr>now = 0, f2i_overflow = 0\<rparr>;
        je = \<lparr>sample = Finite 0 0, overflow = - (2 ^ 63)\<rparr>;
        b = 2 ^ 61 + 257;
        d = ComputeDelay_jitter e je (JitterBackoff (ConstantBackoff b) (Finite 1 (- 1))) 0
    in round53 b 0 = Finite (2 ^ 52 + 1) 9
     \<and> d = 2 ^ 60 + 1
     \<and> \<lceil>\<bar>real_of_int b\<bar> * valof (Finite 1 (- 1))\<rceil> = 2 ^ 60 + 129
     \<and> \<bar>d - b\<bar> = 2 ^ 60 + 256)"
  by code_simp

text \<open>
  The product of the exponential policy, written with the operations above:
  \<^verbatim>\<open>float64(e.initial)\<close> is \<open>round53 initial 0\<close> and \<^verbatim>\<open>math.Pow(2, float64(restarts))\<close>
  is \<open>round53 1 restarts\<close>. \<open>exponentialProduct\<close> agrees with it at these points.
\<close>

lemma exponentialProduct_float64:
  "list_all (\<lambda>(i, r). list_all (\<lambda>ovf.
       exponentialProduct \<lparr>now = 0, f2i_overflow = ovf\<rparr> i r
       = float64_to_int64 ovf (fmul (round53 i 0) (round53 1 r))) [- (2 ^ 63), 2 ^ 63 - 1, 0])
     [(100 * millisecond, 0), (100 * millisecond, 36), (100 * millisecond, 37),
      (2 ^ 53 + 1, 0), (2 ^ 53 + 3, 2), (2 ^ 63 - 1, 0), (- (2 ^ 63), 0), (- (2 ^ 63), 1),
      (5, - 1), (- 5, - 1), (2 ^ 63 - 1, - 10), (7, - 1074), (7, - 1080), (2 ^ 62, - 1100),
      (3, 1023), (3, 1024), (0, 1024), (0, 5), (1, 62), (1, 63), (- 1, 63)]"
  by code_simp

subsection \<open>Exits of children that are not registered\<close>

lemma restartRestForOne_unregistered:
  assumes "childName s (child exit) \<notin> childName s ` set (children s)"
  shows "restartRestForOne exit s = Some (None, s)"
proof -
  have "\<forall>ch\<in>set (children s). \<not> childName s ch = childName s (child exit)"
    using assms by (metis imageI)
  then have "findIndex (\<lambda>ch. childName s ch = childName s (child exit)) (children s) = None"
    by (simp add: findIndex_None_iff)
  then show ?thesis by (simp add: restartRestForOne_def)
qed

lemma emitEvent_fields [simp]:
  "children (emitEvent ev s) = children s"
  "childMap (emitEvent ev s) = childMap s"
  "heap (emitEvent ev s) = heap s"
  "nextRef (emitEvent ev s) = nextRef s"
  "restartHistory (emitEvent ev s) = restartHistory s"
  "slept (emitEvent ev s) = slept s"
  "backoff (emitEvent ev s) = backoff s"
  "strategy (emitEvent ev s) = strategy s"
  "maxRestarts (emitEvent ev s) = maxRestarts s"
  "restartWindow (emitEvent ev s) = restartWindow s"
  "events (emitEvent ev s) = events s @ [ev]"
  by (simp_all add: emitEvent_def)

text \<open>
  An exit whose child's name is carried by no record of the children sequence.
  \<^verbatim>\<open>handleChildExit\<close> never looks whether the child is registered: the restart decision,
  the intensity check and the backoff come first, and only \<^verbatim>\<open>restartRestForOne\<close> looks
  the child up (by name). So under \<open>RestForOne\<close> the sequence, the index and the store
  stay as they are, but the time is appended to the history and the backoff is slept.
\<close>

lemma handleChildExit_unregistered:
  assumes unreg: "childName s (child exit) \<notin> childName s ` set (children s)"
      and how: "\<not> shouldRestart exit s \<or> strategy s = RestForOne"
  shows "\<exists>er s'. handleChildExit e exit s = Some (er, s')
       \<and> (er = None \<or> er = Some ErrIntensityExceeded)
       \<and> children s' = children s \<and> childMap s' = childMap s
       \<and> heap s' = heap s \<and> nextRef s' = nextRef s
       \<and> events s' = events s @ exitEvent exit s #
            (if er = None then [] else [intensityEvent exit s])
       \<and> (\<not> shouldRestart exit s \<longrightarrow>
            er = None \<and> restartHistory s' = restartHistory s \<and> slept s' = slept s)
       \<and> (shouldRestart exit s \<longrightarrow>
            restartHistory s' = restartHistory (snd (checkRestartIntensity e s))
            \<and> (er = None \<longleftrightarrow> fst (checkRestartIntensity e s))
            \<and> slept s' = slept s @ (if er = None then backoffSleep e exit s else []))"
proof (cases "shouldRestart exit s")
  case False
  then show ?thesis
    by (simp add: handleChildExit_no_restart emitEvent_def)
next
  case True
  with how have rfo: "strategy s = RestForOne" by simp
  let ?s1 = "emitEvent (exitEvent exit s) s"
  let ?h = "restartHistory (snd (checkRestartIntensity e s))"
  show ?thesis
  proof (cases "fst (checkRestartIntensity e s)")
    case False
    from handleChildExit_fatal [OF True False] True False show ?thesis
      by (simp add: emitEvent_def)
  next
    case ok: True
    obtain b s2 where c: "checkRestartIntensity e ?s1 = (b, s2)"
      by (cases "checkRestartIntensity e ?s1")
    have b: "b"
      using ok c checkRestartIntensity_emitEvent(2) [of e "exitEvent exit s" s] by simp
    have s2: "s2 = ?s1\<lparr>restartHistory := ?h\<rparr>"
      using c checkRestartIntensity_state [of e ?s1]
        checkRestartIntensity_emitEvent(1) [of e "exitEvent exit s" s] by simp
    let ?s3 = "s2\<lparr>slept := slept s2 @ backoffSleep e exit s2\<rparr>"
    have bs: "backoffSleep e exit s2 = backoffSleep e exit s"
      by (simp add: s2 backoffSleep_def)
    have un3: "childName ?s3 (child exit) \<notin> childName ?s3 ` set (children ?s3)"
      using unreg s2 by (simp add: childName_def)
    have "handleChildExit e exit s = executeStrategy exit ?s3"
      using True c b by (simp add: handleChildExit_def Let_def backoffSleep_def)
    also have "\<dots> = Some (None, ?s3)"
      using rfo s2 restartRestForOne_unregistered [OF un3]
      by (simp add: executeStrategy_def RestForOne_def OneForOne_def OneForAll_def)
    finally show ?thesis
      using True ok s2 bs by simp
  qed
qed

lemma removed_children_exceed_intensity:
  "(let s0 = New RestForOne [WithIntensity 1 minute];
        s1 = snd (the (doRemoveChild ''a''
               (snd (doAddChild \<lparr>Name = ''a'', Restart = Permanent\<rparr> s0))));
        s2 = snd (the (doRemoveChild ''b''
               (snd (doAddChild \<lparr>Name = ''b'', Restart = Permanent\<rparr> s1))));
        r3 = handleChildExit \<lparr>now = 5, f2i_overflow = 0\<rparr>
               (the (runWithRecovery 0 (Returned None) s2)) s2;
        s3 = snd (the r3);
        r4 = handleChildExit \<lparr>now = 6, f2i_overflow = 0\<rparr>
               (the (runWithRecovery 1 (Returned None) s3)) s3;
        s4 = snd (the r4)
    in children s2 = [] \<and> childMap s2 ''a'' = None \<and> childMap s2 ''b'' = None
     \<and> map_option fst r3 = Some None \<and> restartHistory s3 = [5]
     \<and> slept s3 = [100 * millisecond]
     \<and> map_option fst r4 = Some (Some ErrIntensityExceeded) \<and> restartHistory s4 = [5, 6]
     \<and> events s4 = events s2 @
          [\<lparr>ChildName = ''a'', Type = ChildExited, Err = None, StackTrace = []\<rparr>,
           \<lparr>ChildName = ''b'', Type = ChildExited, Err = None, StackTrace = []\<rparr>,
           \<lparr>ChildName = ''b'', Type = SupervisorFailedIntensity, Err = None, StackTrace = []\<rparr>])"
  by code_simp

text \<open>
  Claim C1. The exit of a child that is no longer registered is ignored: no restart
  decision, no intensity entry, no backoff, no event beyond the exit event, and the
  children sequence and the name index unchanged. Under \<open>OneForOne\<close> a
  \<open>Permanent\<close> child \<open>w\<close> is added and removed; \<^verbatim>\<open>doRemoveChild\<close> cancels the record,
  whose body returns, and the exit is processed. \<^verbatim>\<open>restartOne\<close> has no check that the
  child is registered (\<^verbatim>\<open>restartRestForOne\<close> returns when it finds none): the time is
  appended to the history, the backoff of 100 ms is slept, a new record with restart
  count 1 is created, entered in the name index and started, and \<^verbatim>\<open>ChildRestarted\<close> and
  \<^verbatim>\<open>ChildStarted\<close> are emitted. The removed child runs again.
\<close>

theorem C1_removed_child_restarted:
  "(let e = \<lparr>now = 5, f2i_overflow = 0\<rparr>;
        s1 = snd (doAddChild \<lparr>Name = ''w'', Restart = Permanent\<rparr> (New OneForOne []));
        s2 = snd (the (doRemoveChild ''w'' s1));
        sent = runWithRecovery 0 (Returned None) s2;
        exit = the sent;
        s3 = snd (the (handleChildExit e exit s2))
    in children s1 = [0]
     \<and> map_option fst (doRemoveChild ''w'' s1) = Some None
     \<and> children s2 = [] \<and> childMap s2 ''w'' = None \<and> isStopped 0 s2
     \<and> sent = Some \<lparr>child = 0, err = None, panic = False, stackTrace = []\<rparr>
     \<and> child exit \<notin> set (children s2)
     \<and> map_option fst (handleChildExit e exit s2) = Some None
     \<and> restartHistory s2 = [] \<and> restartHistory s3 = [5]
     \<and> slept s2 = [] \<and> slept s3 = [100 * millisecond]
     \<and> events s3 = events s2 @
          [\<lparr>ChildName = ''w'', Type = ChildExited, Err = None, StackTrace = []\<rparr>,
           \<lparr>ChildName = ''w'', Type = ChildRestarted, Err = None, StackTrace = []\<rparr>,
           \<lparr>ChildName = ''w'', Type = ChildStarted, Err = None, StackTrace = []\<rparr>]
     \<and> children s3 = [] \<and> childMap s3 ''w'' = Some 1 \<and> nextRef s2 = 1 \<and> nextRef s3 = 2
     \<and> heap s3 1 = \<lparr>spec = \<lparr>Name = ''w'', Restart = Permanent\<rparr>, cancel = True,
                      restartCount = 1, stopped = False\<rparr>)"
  by code_simp

subsection \<open>The RestForOne strategy\<close>

lemma findIndex_first:
  "i < length xs \<Longrightarrow> P (xs ! i) \<Longrightarrow> \<forall>j<i. \<not> P (xs ! j) \<Longrightarrow> findIndex P xs = Some i"
proof (induction xs arbitrary: i)
  case Nil
  then show ?case by simp
next
  case (Cons x xs)
  show ?case
  proof (cases i)
    case 0
    then show ?thesis using Cons.prems by simp
  next
    case (Suc k)
    have "\<not> P x" using Cons.prems(3) Suc by auto
    moreover have "findIndex P xs = Some k"
      using Cons.prems Suc by (intro Cons.IH) auto
    ultimately show ?thesis using Suc by simp
  qed
qed

lemma restartSlot_children: "children (restartSlot i s) = (children s)[i := nextRef s]"
  by (simp add: restartSlot_def Let_def newChild_def setRestartCount_def startChild_def)

lemma restartSlot_nextRef: "nextRef (restartSlot i s) = Suc (nextRef s)"
  by (simp add: restartSlot_def Let_def newChild_def setRestartCount_def startChild_def)

lemma restartSlot_heap:
  "heap (restartSlot i s) = (heap s)(nextRef s := replacement (heap s (children s ! i)))"
  by (simp add: restartSlot_def Let_def newChild_def setRestartCount_def startChild_def
      replacement_def)

lemma restartSlot_events:
  "events (restartSlot i s) = events s @ restartEvents s [children s ! i]"
  by (simp add: restartSlot_def Let_def newChild_def setRestartCount_def startChild_def
      restartEvents_def childName_def emitEvent_def)

lemma restartFrom_length [simp]: "length (children (restartFrom i s)) = length (children s)"
  by (induction i s rule: restartFrom.induct) (subst restartFrom.simps, simp)

lemma restartFrom_nth_before:
  "j < i \<Longrightarrow> children (restartFrom i s) ! j = children s ! j"
proof (induction i s rule: restartFrom.induct)
  case (1 i s)
  show ?case
  proof (cases "i < length (children s)")
    case True
    then have "children (restartFrom (Suc i) (restartSlot i s)) ! j = children (restartSlot i s) ! j"
      using "1.IH" "1.prems" by simp
    then show ?thesis
      using True "1.prems" by (subst restartFrom.simps) (simp add: restartSlot_children)
  next
    case False
    then show ?thesis by (subst restartFrom.simps) simp
  qed
qed

lemma restartFrom_nth_from:
  "i \<le> j \<Longrightarrow> j < length (children s) \<Longrightarrow>
   children (restartFrom i s) ! j = nextRef s + (j - i)"
proof (induction i s arbitrary: j rule: restartFrom.induct)
  case (1 i s)
  then have lt: "i < length (children s)" by simp
  have unf: "restartFrom i s = restartFrom (Suc i) (restartSlot i s)"
    using lt by (subst restartFrom.simps) simp
  show ?case
  proof (cases "j = i")
    case True
    then show ?thesis
      using unf lt restartFrom_nth_before [of i "Suc i" "restartSlot i s"]
      by (simp add: restartSlot_children)
  next
    case False
    then have "Suc i \<le> j" using "1.prems" by simp
    then have "children (restartFrom (Suc i) (restartSlot i s)) ! j =
               nextRef (restartSlot i s) + (j - Suc i)"
      using "1.IH" [OF lt] "1.prems" by simp
    then show ?thesis
      using unf \<open>Suc i \<le> j\<close> by (simp add: restartSlot_nextRef)
  qed
qed

lemma restartFrom_heap_old:
  "r < nextRef s \<Longrightarrow> heap (restartFrom i s) r = heap s r"
proof (induction i s rule: restartFrom.induct)
  case (1 i s)
  show ?case
  proof (cases "i < length (children s)")
    case True
    then have "heap (restartFrom (Suc i) (restartSlot i s)) r = heap (restartSlot i s) r"
      using "1.IH" "1.prems" by (simp add: restartSlot_nextRef)
    then show ?thesis
      using True "1.prems" by (subst restartFrom.simps) (simp add: restartSlot_heap)
  next
    case False
    then show ?thesis by (subst restartFrom.simps) simp
  qed
qed

lemma restartSlot_allocated:
  "\<forall>r\<in>set (children s). r < nextRef s \<Longrightarrow>
   \<forall>r\<in>set (children (restartSlot i s)). r < nextRef (restartSlot i s)"
  by (auto simp: restartSlot_children restartSlot_nextRef less_Suc_eq
      dest!: set_update_subset_insert [THEN subsetD])

lemma restartFrom_heap_new:
  "\<forall>r\<in>set (children s). r < nextRef s \<Longrightarrow> i \<le> j \<Longrightarrow> j < length (children s) \<Longrightarrow>
   heap (restartFrom i s) (nextRef s + (j - i)) = replacement (heap s (children s ! j))"
proof (induction i s arbitrary: j rule: restartFrom.induct)
  case (1 i s)
  then have lt: "i < length (children s)" by simp
  have unf: "restartFrom i s = restartFrom (Suc i) (restartSlot i s)"
    using lt by (subst restartFrom.simps) simp
  show ?case
  proof (cases "j = i")
    case True
    then show ?thesis
      using unf restartFrom_heap_old [of "nextRef s" "restartSlot i s" "Suc i"]
      by (simp add: restartSlot_nextRef restartSlot_heap)
  next
    case False
    then have le: "Suc i \<le> j" using "1.prems" by simp
    have old: "children s ! j < nextRef s" using "1.prems" by simp
    have "heap (restartFrom (Suc i) (restartSlot i s)) (nextRef (restartSlot i s) + (j - Suc i)) =
          replacement (heap (restartSlot i s) (children (restartSlot i s) ! j))"
      using "1.IH" [OF lt restartSlot_allocated [OF "1.prems"(1)] le] "1.prems" by simp
    moreover have "nextRef (restartSlot i s) + (j - Suc i) = nextRef s + (j - i)"
      using le by (simp add: restartSlot_nextRef)
    moreover have "heap (restartSlot i s) (children (restartSlot i s) ! j) =
                   heap s (children s ! j)"
      using False old by (simp add: restartSlot_heap restartSlot_children)
    ultimately show ?thesis
      using unf by simp
  qed
qed

lemma restartEvents_cong:
  "\<forall>r\<in>set rs. childName s' r = childName s r \<Longrightarrow> restartEvents s' rs = restartEvents s rs"
  by (induction rs) (simp_all add: restartEvents_def)

lemma restartFrom_events:
  "\<forall>r\<in>set (children s). r < nextRef s \<Longrightarrow>
   events (restartFrom i s) = events s @ restartEvents s (drop i (children s))"
proof (induction i s rule: restartFrom.induct)
  case (1 i s)
  show ?case
  proof (cases "i < length (children s)")
    case True
    let ?s = "restartSlot i s"
    have unf: "restartFrom i s = restartFrom (Suc i) ?s"
      using True by (subst restartFrom.simps) simp
    have "events (restartFrom (Suc i) ?s) = events ?s @ restartEvents ?s (drop (Suc i) (children ?s))"
      using "1.IH" [OF True restartSlot_allocated [OF "1.prems"]] .
    moreover have d: "drop (Suc i) (children ?s) = drop (Suc i) (children s)"
      by (simp add: restartSlot_children)
    moreover have "restartEvents ?s (drop (Suc i) (children s)) =
                   restartEvents s (drop (Suc i) (children s))"
    proof (rule restartEvents_cong, rule ballI)
      fix r assume "r \<in> set (drop (Suc i) (children s))"
      then have "r \<in> set (children s)" by (rule in_set_dropD)
      then have "r \<noteq> nextRef s" using "1.prems" by auto
      then show "childName ?s r = childName s r"
        by (simp add: childName_def restartSlot_heap)
    qed
    moreover have "drop i (children s) = children s ! i # drop (Suc i) (children s)"
      using True by (simp add: Cons_nth_drop_Suc)
    ultimately show ?thesis
      using unf by (simp add: restartSlot_events restartEvents_def)
  next
    case False
    then show ?thesis by (subst restartFrom.simps) (simp add: restartEvents_def)
  qed
qed


lemma stoppedHeap_simps [simp]:
  "spec (stoppedHeap rs h r) = spec (h r)"
  "restartCount (stoppedHeap rs h r) = restartCount (h r)"
  "cancel (stoppedHeap rs h r) = cancel (h r)"
  "r \<in> set rs \<Longrightarrow> child.stopped (stoppedHeap rs h r)"
  "r \<notin> set rs \<Longrightarrow> stoppedHeap rs h r = h r"
  by (simp_all add: stoppedHeap_def)

text \<open>
  \<^verbatim>\<open>restartRestForOne\<close> on records that carry a cancel function (records made by
  \<^verbatim>\<open>newChild\<close>), the names of the registered children being distinct and the
  references of the slice allocated. The records at the positions before the failed
  one are left as they are: the same references in the same slots, the records
  unchanged. Each record from the failed position on is stopped and its slot receives
  a fresh record with the same spec, the restart count plus one and the stopped flag
  clear; the events are \<^verbatim>\<open>ChildRestarted\<close> and \<^verbatim>\<open>ChildStarted\<close> for each of them, in
  sequence order.
\<close>

lemma restartRestForOne_suffix:
  assumes strat: "strategy s = RestForOne"
      and names: "distinct (map (childName s) (children s))"
      and alloc: "\<forall>r\<in>set (children s). r < nextRef s"
      and i: "i < length (children s)"
      and failed: "childName s (children s ! i) = childName s (child exit)"
      and canc: "\<forall>r\<in>set (drop i (children s)). cancel (heap s r)"
  shows "\<exists>s'. executeStrategy exit s = Some (None, s')
       \<and> length (children s') = length (children s)
       \<and> (\<forall>j<i. children s' ! j = children s ! j
                 \<and> heap s' (children s ! j) = heap s (children s ! j))
       \<and> (\<forall>j. i \<le> j \<and> j < length (children s) \<longrightarrow>
               children s' ! j \<notin> set (children s)
             \<and> spec (heap s' (children s' ! j)) = spec (heap s (children s ! j))
             \<and> restartCount (heap s' (children s' ! j)) =
                 restartCount (heap s (children s ! j)) + 1
             \<and> \<not> child.stopped (heap s' (children s' ! j))
             \<and> child.stopped (heap s' (children s ! j)))
       \<and> events s' = events s @
           concat (map (\<lambda>r. [\<lparr>ChildName = childName s r, Type = ChildRestarted,
                                 Err = None, StackTrace = []\<rparr>,
                               \<lparr>ChildName = childName s r, Type = ChildStarted,
                                 Err = None, StackTrace = []\<rparr>])
                     (drop i (children s)))"
proof -
  let ?P = "\<lambda>ch. childName s ch = childName s (child exit)"
  let ?s1 = "s\<lparr>heap := stoppedHeap (drop i (children s)) (heap s)\<rparr>"
  let ?s' = "restartFrom i ?s1"
  have dist: "distinct (children s)"
    using names by (simp add: distinct_map)
  have "\<forall>j<i. \<not> ?P (children s ! j)"
  proof (intro allI impI)
    fix j assume j: "j < i"
    have "(map (childName s) (children s) ! j = map (childName s) (children s) ! i) = (j = i)"
      using names i j by (intro nth_eq_iff_index_eq) simp_all
    then show "\<not> ?P (children s ! j)"
      using j i failed by simp
  qed
  then have fi: "findIndex ?P (children s) = Some i"
    using i failed by (intro findIndex_first) simp_all
  have st: "stopAll (drop i (children s)) s = Some ?s1"
    by (rule stopAll_closed [OF canc])
  have run: "executeStrategy exit s = Some (None, ?s')"
    using strat fi st
    by (simp add: executeStrategy_def restartRestForOne_def RestForOne_def OneForOne_def
        OneForAll_def)
  have alloc1: "\<forall>r\<in>set (children ?s1). r < nextRef ?s1"
    using alloc by simp
  have len: "length (children ?s') = length (children s)"
    by simp
  have before: "\<forall>j<i. children ?s' ! j = children s ! j
                 \<and> heap ?s' (children s ! j) = heap s (children s ! j)"
  proof (intro allI impI)
    fix j assume j: "j < i"
    then have jl: "j < length (children s)" using i by simp
    have "children s ! j \<in> set (take i (children s))"
      using j jl by (auto simp: in_set_conv_nth intro!: exI [of _ j])
    moreover have "set (take i (children s)) \<inter> set (drop i (children s)) = {}"
      using dist by (metis append_take_drop_id distinct_append)
    ultimately have notin: "children s ! j \<notin> set (drop i (children s))" by auto
    have "heap ?s' (children s ! j) = heap ?s1 (children s ! j)"
      using alloc jl by (intro restartFrom_heap_old) simp
    then show "children ?s' ! j = children s ! j
                 \<and> heap ?s' (children s ! j) = heap s (children s ! j)"
      using restartFrom_nth_before [OF j, of ?s1] notin by simp
  qed
  have after: "\<forall>j. i \<le> j \<and> j < length (children s) \<longrightarrow>
               children ?s' ! j \<notin> set (children s)
             \<and> spec (heap ?s' (children ?s' ! j)) = spec (heap s (children s ! j))
             \<and> restartCount (heap ?s' (children ?s' ! j)) =
                 restartCount (heap s (children s ! j)) + 1
             \<and> \<not> child.stopped (heap ?s' (children ?s' ! j))
             \<and> child.stopped (heap ?s' (children s ! j))"
  proof (intro allI impI)
    fix j assume "i \<le> j \<and> j < length (children s)"
    then have ij: "i \<le> j" and jl: "j < length (children s)" by simp_all
    have new: "children ?s' ! j = nextRef s + (j - i)"
      using restartFrom_nth_from [of i j ?s1] ij jl by simp
    have fresh: "children ?s' ! j \<notin> set (children s)"
      using new alloc by auto
    have rec: "heap ?s' (children ?s' ! j) = replacement (heap ?s1 (children s ! j))"
      using restartFrom_heap_new [OF alloc1, of i j] ij jl new by simp
    have "children s ! j \<in> set (drop i (children s))"
      using ij jl by (auto simp: in_set_conv_nth intro!: exI [of _ "j - i"])
    moreover have "heap ?s' (children s ! j) = heap ?s1 (children s ! j)"
      using alloc jl by (intro restartFrom_heap_old) simp
    ultimately have old: "child.stopped (heap ?s' (children s ! j))" by simp
    show "children ?s' ! j \<notin> set (children s)
             \<and> spec (heap ?s' (children ?s' ! j)) = spec (heap s (children s ! j))
             \<and> restartCount (heap ?s' (children ?s' ! j)) =
                 restartCount (heap s (children s ! j)) + 1
             \<and> \<not> child.stopped (heap ?s' (children ?s' ! j))
             \<and> child.stopped (heap ?s' (children s ! j))"
      using fresh rec old by (simp add: replacement_def)
  qed
  have "restartEvents ?s1 (drop i (children s)) = restartEvents s (drop i (children s))"
    by (rule restartEvents_cong) (simp add: childName_def)
  then have "events ?s' = events s @ restartEvents s (drop i (children s))"
    using restartFrom_events [OF alloc1, of i] by simp
  then have ev: "events ?s' = events s @
           concat (map (\<lambda>r. [\<lparr>ChildName = childName s r, Type = ChildRestarted,
                                 Err = None, StackTrace = []\<rparr>,
                               \<lparr>ChildName = childName s r, Type = ChildStarted,
                                 Err = None, StackTrace = []\<rparr>])
                     (drop i (children s)))"
    by (simp add: restartEvents_def restartedEvent_def startedEvent_def)
  show ?thesis
    using run len before after ev by blast
qed


text \<open>Three children added with \<^verbatim>\<open>AddChild\<close>; the second one fails.\<close>

lemma rest_for_one_added_children:
  "(let s = snd (doAddChild \<lparr>Name = ''c'', Restart = Permanent\<rparr>
               (snd (doAddChild \<lparr>Name = ''b'', Restart = Permanent\<rparr>
                 (snd (doAddChild \<lparr>Name = ''a'', Restart = Permanent\<rparr>
                   (New RestForOne []))))));
        exit = the (runWithRecovery 1 (Returned (Some ''failed'')) s);
        s' = snd (the (executeStrategy exit s))
    in children s = [0, 1, 2]
     \<and> map_option fst (executeStrategy exit s) = Some None
     \<and> children s' = [0, 3, 4] \<and> heap s' 0 = heap s 0
     \<and> heap s' 1 = (heap s 1)\<lparr>child.stopped := True\<rparr>
     \<and> heap s' 2 = (heap s 2)\<lparr>child.stopped := True\<rparr>
     \<and> heap s' 3 = \<lparr>spec = \<lparr>Name = ''b'', Restart = Permanent\<rparr>, cancel = True,
                      restartCount = 1, stopped = False\<rparr>
     \<and> heap s' 4 = \<lparr>spec = \<lparr>Name = ''c'', Restart = Permanent\<rparr>, cancel = True,
                      restartCount = 1, stopped = False\<rparr>
     \<and> events s' = events s @
          [\<lparr>ChildName = ''b'', Type = ChildRestarted, Err = None, StackTrace = []\<rparr>,
           \<lparr>ChildName = ''b'', Type = ChildStarted, Err = None, StackTrace = []\<rparr>,
           \<lparr>ChildName = ''c'', Type = ChildRestarted, Err = None, StackTrace = []\<rparr>,
           \<lparr>ChildName = ''c'', Type = ChildStarted, Err = None, StackTrace = []\<rparr>])"
  by code_simp

text \<open>
  Claim C8. Under \<open>RestForOne\<close>, when the child at position \<open>i\<close> fails, the records
  before \<open>i\<close> are untouched and the records from \<open>i\<close> on are each stopped and replaced
  by a fresh record, with \<^verbatim>\<open>ChildRestarted\<close> events in sequence order. The supervisor
  of \<^verbatim>\<open>TestRestForOneStrategy\<close> declares its three \<open>Permanent\<close> children with
  \<^verbatim>\<open>WithChildren\<close>, which builds \<^verbatim>\<open>&child{spec: spec}\<close>: no context, no cancel function,
  no \<^verbatim>\<open>exits\<close> channel (\<^verbatim>\<open>newChild\<close> sets the three). \<^verbatim>\<open>Start\<close> starts these
  records as they are. When the body of \<open>worker2\<close> returns its error,
  \<^verbatim>\<open>runWithRecovery\<close> sends the exit on the nil channel and blocks: no exit reaches the
  loop and nothing is stopped or replaced. Were the exit processed, \<^verbatim>\<open>restartRestForOne\<close>
  would call \<^verbatim>\<open>stop\<close> on the record of \<open>worker2\<close>, whose \<^verbatim>\<open>c.cancel()\<close> is a call of a
  nil function: \<^verbatim>\<open>executeStrategy\<close>, \<^verbatim>\<open>handleChildExit\<close> and the loop panic.
\<close>

theorem C8_rest_for_one_WithChildren:
  "(let s0 = New RestForOne
               [WithName ''rest-for-one-test'', WithBackoff (ConstantBackoff (10 * millisecond)),
                WithChildren [\<lparr>Name = ''worker1'', Restart = Permanent\<rparr>,
                              \<lparr>Name = ''worker2'', Restart = Permanent\<rparr>,
                              \<lparr>Name = ''worker3'', Restart = Permanent\<rparr>]];
        s = snd (Start s0);
        exit = \<lparr>child = 1, err = Some ''worker2 error'', panic = False, stackTrace = []\<rparr>;
        e = \<lparr>now = 0, f2i_overflow = 0\<rparr>
    in fst (Start s0) = None
     \<and> strategy s = RestForOne \<and> children s = [0, 1, 2]
     \<and> map (childName s) (children s) = [''worker1'', ''worker2'', ''worker3'']
     \<and> events s = [\<lparr>ChildName = ''worker1'', Type = ChildStarted, Err = None, StackTrace = []\<rparr>,
                    \<lparr>ChildName = ''worker2'', Type = ChildStarted, Err = None, StackTrace = []\<rparr>,
                    \<lparr>ChildName = ''worker3'', Type = ChildStarted, Err = None, StackTrace = []\<rparr>]
     \<and> runWithRecovery 1 (Returned (Some ''worker2 error'')) s = None
     \<and> executeStrategy exit s = None
     \<and> handleChildExit e exit s = None
     \<and> runExit e exit s = None)"
  by code_simp

subsection \<open>The OneForAll strategy\<close>

lemma createAll_Cons:
  "createAll (ch # chs) acc s = createAll chs (acc @ [nextRef s]) (createOne ch s)"
  by (simp add: createOne_def Let_def newChild_def setRestartCount_def)

lemma createOne_fields:
  "nextRef (createOne ch s) = Suc (nextRef s)"
  "children (createOne ch s) = children s"
  "heap (createOne ch s) = (heap s)(nextRef s := replacement (heap s ch))"
  "childMap (createOne ch s) = (childMap s)(childName s ch := Some (nextRef s))"
  by (simp_all add: createOne_def Let_def newChild_def setRestartCount_def replacement_def)

lemma createOne_childName:
  "r \<noteq> nextRef s \<Longrightarrow> childName (createOne ch s) r = childName s r"
  by (simp add: childName_def createOne_fields)

lemma upt_add_Suc: "[n ..< n + Suc k] = n # [Suc n ..< Suc n + k]"
  by (simp add: upt_conv_Cons)

lemma createAll_fst:
  "fst (createAll chs acc s) = acc @ [nextRef s ..< nextRef s + length chs]"
proof (induction chs arbitrary: acc s)
  case Nil
  then show ?case by simp
next
  case (Cons ch chs)
  show ?case
    using upt_add_Suc [of "nextRef s" "length chs"]
    by (simp add: createAll_Cons Cons.IH createOne_fields del: createAll.simps)
qed

lemma createAll_fields:
  "nextRef (snd (createAll chs acc s)) = nextRef s + length chs"
  "children (snd (createAll chs acc s)) = children s"
  by (induction chs arbitrary: acc s)
    (simp_all add: createAll_Cons createOne_fields del: createAll.simps(2))

lemma createAll_heap_old:
  "r < nextRef s \<Longrightarrow> heap (snd (createAll chs acc s)) r = heap s r"
  by (induction chs arbitrary: acc s)
    (simp_all add: createAll_Cons createOne_fields del: createAll.simps(2))

lemma createAll_heap_new:
  "\<forall>r\<in>set chs. r < nextRef s \<Longrightarrow> j < length chs \<Longrightarrow>
   heap (snd (createAll chs acc s)) (nextRef s + j) = replacement (heap s (chs ! j))"
proof (induction chs arbitrary: acc s j)
  case Nil
  then show ?case by simp
next
  case (Cons ch chs)
  let ?s = "createOne ch s"
  note step = createAll_Cons [of ch chs acc s]
  show ?case
  proof (cases j)
    case 0
    then show ?thesis
      using createAll_heap_old [of "nextRef s" ?s chs "acc @ [nextRef s]"]
      by (simp add: step createOne_fields del: createAll.simps)
  next
    case (Suc k)
    have "heap (snd (createAll chs (acc @ [nextRef s]) ?s)) (nextRef ?s + k) =
          replacement (heap ?s (chs ! k))"
      using Cons.prems Suc by (intro Cons.IH) (auto simp: createOne_fields)
    moreover have "chs ! k \<in> set chs"
      using Cons.prems Suc by simp
    then have "chs ! k \<noteq> nextRef s"
      using Cons.prems(1) by auto
    ultimately show ?thesis using Suc by (simp add: step createOne_fields del: createAll.simps)
  qed
qed

lemma createAll_childMap_other:
  "nm \<notin> childName s ` set chs \<Longrightarrow> \<forall>r\<in>set chs. r < nextRef s \<Longrightarrow>
   childMap (snd (createAll chs acc s)) nm = childMap s nm"
proof (induction chs arbitrary: acc s)
  case Nil
  then show ?case by simp
next
  case (Cons ch chs)
  let ?s = "createOne ch s"
  note step = createAll_Cons [of ch chs acc s]
  have same: "\<forall>r\<in>set chs. childName ?s r = childName s r"
    using Cons.prems(2) by (auto simp: createOne_childName)
  then have "childName ?s ` set chs = childName s ` set chs" by force
  then have "childMap (snd (createAll chs (acc @ [nextRef s]) ?s)) nm = childMap ?s nm"
    using Cons.prems by (intro Cons.IH) (auto simp: createOne_fields)
  then show ?case using Cons.prems(1) by (simp add: step createOne_fields del: createAll.simps)
qed

lemma createAll_childMap_new:
  "distinct (map (childName s) chs) \<Longrightarrow> \<forall>r\<in>set chs. r < nextRef s \<Longrightarrow> j < length chs \<Longrightarrow>
   childMap (snd (createAll chs acc s)) (childName s (chs ! j)) = Some (nextRef s + j)"
proof (induction chs arbitrary: acc s j)
  case Nil
  then show ?case by simp
next
  case (Cons ch chs)
  let ?s = "createOne ch s"
  note step = createAll_Cons [of ch chs acc s]
  have same: "\<forall>r\<in>set chs. childName ?s r = childName s r"
    using Cons.prems(2) by (auto simp: createOne_childName)
  then have img: "childName ?s ` set chs = childName s ` set chs" by force
  have alloc: "\<forall>r\<in>set chs. r < nextRef ?s"
    using Cons.prems(2) by (auto simp: createOne_fields)
  show ?case
  proof (cases j)
    case 0
    have "childName s ch \<notin> childName ?s ` set chs"
      using Cons.prems(1) img by auto
    then have "childMap (snd (createAll chs (acc @ [nextRef s]) ?s)) (childName s ch) =
               childMap ?s (childName s ch)"
      using alloc by (rule createAll_childMap_other)
    then show ?thesis using 0 by (simp add: step createOne_fields del: createAll.simps)
  next
    case (Suc k)
    then have k: "k < length chs" using Cons.prems(3) by simp
    have "distinct (map (childName ?s) chs)"
      using Cons.prems(1) same by (simp add: distinct_map inj_on_def)
    then have "childMap (snd (createAll chs (acc @ [nextRef s]) ?s)) (childName ?s (chs ! k)) =
               Some (nextRef ?s + k)"
      using alloc k by (rule Cons.IH)
    moreover have "childName ?s (chs ! k) = childName s (chs ! k)"
      using same k by simp
    ultimately show ?thesis using Suc by (simp add: step createOne_fields del: createAll.simps)
  qed
qed


lemma startAll_fields [simp]:
  "heap (startAll chs s) = heap s" "children (startAll chs s) = children s"
  "childMap (startAll chs s) = childMap s" "nextRef (startAll chs s) = nextRef s"
  by (induction chs arbitrary: s) (simp_all add: startChild_def)

lemma stopAll_fields_conj:
  "stopAll rs s = Some s' \<Longrightarrow>
   children s' = children s \<and> childMap s' = childMap s \<and> nextRef s' = nextRef s
   \<and> spec (heap s' r) = spec (heap s r) \<and> restartCount (heap s' r) = restartCount (heap s r)"
proof (induction rs arbitrary: s)
  case Nil
  then show ?case by simp
next
  case (Cons a as)
  then obtain t where t: "stop a s = Some t" and rest: "stopAll as t = Some s'"
    by (auto split: option.splits)
  have "children t = children s \<and> childMap t = childMap s \<and> nextRef t = nextRef s
      \<and> spec (heap t r) = spec (heap s r) \<and> restartCount (heap t r) = restartCount (heap s r)"
    using t by (auto simp: stop_def split: if_splits)
  then show ?case using Cons.IH [OF rest] by simp
qed

lemma stopAll_fields:
  assumes "stopAll rs s = Some s'"
  shows "children s' = children s" "childMap s' = childMap s" "nextRef s' = nextRef s"
    "spec (heap s' r) = spec (heap s r)" "restartCount (heap s' r) = restartCount (heap s r)"
  using stopAll_fields_conj [OF assms] by simp_all

lemma restartAll_records:
  assumes alloc: "\<forall>r\<in>set (children s). r < nextRef s"
      and run: "restartAll s = Some (er, s')" and j: "j < length (children s)"
  shows "children s' ! j = nextRef s + j"
    and "spec (heap s' (children s' ! j)) = spec (heap s (children s ! j))"
    and "restartCount (heap s' (children s' ! j)) = restartCount (heap s (children s ! j)) + 1"
proof -
  obtain s1 where s1: "stopAll (children s) s = Some s1"
    using run by (cases "stopAll (children s) s") (simp_all add: restartAll_def)
  note f = stopAll_fields [OF s1]
  obtain new s2 where c: "createAll (children s1) [] s1 = (new, s2)"
    by (cases "createAll (children s1) [] s1")
  have s': "s' = startAll new (s2\<lparr>children := new\<rparr>)"
    using run s1 c by (auto simp: restartAll_def Let_def)
  have new: "new = [nextRef s ..< nextRef s + length (children s)]"
    using createAll_fst [of "children s1" "[]" s1] c f by simp
  have alloc1: "\<forall>r\<in>set (children s1). r < nextRef s1" using alloc f by simp
  have h: "heap s' (nextRef s + j) = replacement (heap s1 (children s ! j))"
    using createAll_heap_new [OF alloc1, of j "[]"] c j f by (simp add: s')
  show "children s' ! j = nextRef s + j"
    using j by (simp add: s' new)
  then show "spec (heap s' (children s' ! j)) = spec (heap s (children s ! j))"
    and "restartCount (heap s' (children s' ! j)) = restartCount (heap s (children s ! j)) + 1"
    using h f by (simp_all add: replacement_def)
qed

subsection \<open>Restart counts\<close>

lemma restartOne_record:
  "childMap (snd (restartOne exit s)) (childName s (child exit)) = Some (nextRef s)"
  "heap (snd (restartOne exit s)) (nextRef s) = replacement (heap s (child exit))"
  by (simp_all add: restartOne_def Let_def newChild_def setRestartCount_def startChild_def
      emitEvent_def childName_def replacement_def)

lemma doRestartChild_record:
  assumes "doRestartChild nm s = Some (None, s')"
  shows "childMap s' nm = Some (nextRef s)" and "restartCount (heap s' (nextRef s)) = 0"
  using assms
  by (auto simp: doRestartChild_def Let_def newChild_def startChild_def emitEvent_def stop_def
      split: option.splits if_splits)


text \<open>
  Claim C2. Every restart of a slot, by a strategy or by \<^verbatim>\<open>RestartChild\<close>, gives the
  replacement record the old \<^verbatim>\<open>restartCount\<close> plus one. \<^verbatim>\<open>restartOne\<close>,
  \<^verbatim>\<open>restartAll\<close> and \<^verbatim>\<open>restartRestForOne\<close> assign it (lemmas \<open>restartOne_record\<close>,
  \<open>restartAll_records\<close>, \<open>restartFrom_heap_new\<close>); \<^verbatim>\<open>doRestartChild\<close> keeps the zero of
  \<^verbatim>\<open>newChild\<close> (lemma \<open>doRestartChild_record\<close>). A child added as \<open>w\<close> fails once and
  is restarted by \<open>OneForOne\<close> with count 1; the manual restart that follows installs
  a record with count 0.
\<close>

theorem C2_manual_restart_resets_count:
  "(let e = \<lparr>now = 0, f2i_overflow = 0\<rparr>;
        exit = \<lparr>child = 0, err = Some ''failed'', panic = False, stackTrace = []\<rparr>;
        s1 = snd (doAddChild \<lparr>Name = ''w'', Restart = Permanent\<rparr> (New OneForOne []));
        s2 = snd (the (handleChildExit e exit s1));
        s3 = snd (the (doRestartChild ''w'' s2))
    in children s1 = [0] \<and> restartCount (heap s1 0) = 0
     \<and> handleChildExit e exit s1 \<noteq> None \<and> fst (the (handleChildExit e exit s1)) = None
     \<and> children s2 = [1] \<and> restartCount (heap s2 1) = 1
     \<and> doRestartChild ''w'' s2 \<noteq> None \<and> fst (the (doRestartChild ''w'' s2)) = None
     \<and> children s3 = [2] \<and> childMap s3 ''w'' = Some 2
     \<and> restartCount (heap s3 2) = 0
     \<and> restartCount (heap s3 2) \<noteq> restartCount (heap s2 1) + 1
     \<and> restartCount (heap s3 2) < restartCount (heap s2 1))"
  by code_simp

subsection \<open>The slice and the map\<close>

lemma registryInv_New: "registryInv (New strat [])"
  by (simp add: registryInv_def New_def)

lemma removeFirst_distinct:
  "distinct xs \<Longrightarrow> y \<in> set xs \<Longrightarrow> removeFirst y xs = remove1 y xs"
proof (induction xs)
  case Nil
  then show ?case by simp
next
  case (Cons x xs)
  then show ?case
    by (cases "findIndex (\<lambda>c. c = y) xs")
      (auto simp: removeFirst_def findIndex_None_iff)
qed

lemma registryInv_doAddChild:
  assumes "registryInv s"
  shows "registryInv (snd (doAddChild sp s))"
proof (cases "stopped s \<or> childMap s (Name sp) \<noteq> None")
  case True
  then show ?thesis using assms by (auto simp: doAddChild_def)
next
  case False
  let ?n = "nextRef s"
  have fresh: "\<forall>r\<in>set (children s). r \<noteq> ?n"
    using assms by (auto simp: registryInv_def)
  have newname: "\<forall>r\<in>set (children s). childName s r \<noteq> Name sp"
    using assms False by (auto simp: registryInv_def)
  have s': "children (snd (doAddChild sp s)) = children s @ [?n]"
    "childMap (snd (doAddChild sp s)) = (childMap s)(Name sp := Some ?n)"
    "nextRef (snd (doAddChild sp s)) = Suc ?n"
    "childName (snd (doAddChild sp s)) = (childName s)(?n := Name sp)"
    using False
    by (simp_all add: doAddChild_def newChild_def startChild_def childName_def fun_eq_iff)
  have names: "map (childName (snd (doAddChild sp s))) (children s) = map (childName s) (children s)"
    using fresh by (simp add: s')
  show ?thesis
    unfolding registryInv_def s'(1,2,3)
  proof (intro conjI allI)
    show "distinct (map (childName (snd (doAddChild sp s))) (children s @ [?n]))"
      using assms names newname by (auto simp: registryInv_def s'(4))
    show "\<forall>r\<in>set (children s @ [?n]). r < Suc ?n"
      using assms by (auto simp: registryInv_def)
    fix nm r
    show "((childMap s)(Name sp := Some ?n)) nm = Some r \<longleftrightarrow>
          r \<in> set (children s @ [?n]) \<and> childName (snd (doAddChild sp s)) r = nm"
      using assms fresh newname by (auto simp: registryInv_def s'(4))
  qed
qed


lemma childName_fun: "childName s = (\<lambda>r. Name (spec (heap s r)))"
  by (simp add: fun_eq_iff childName_def)

lemma findIndex_cong:
  "\<forall>x\<in>set xs. P x = Q x \<Longrightarrow> findIndex P xs = findIndex Q xs"
  by (induction xs) simp_all

lemma stop_fields:
  assumes "stop r s = Some s'"
  shows "children s' = children s" "childMap s' = childMap s" "nextRef s' = nextRef s"
    "childName s' = childName s"
  using assms by (auto simp: stop_def childName_fun fun_eq_iff split: if_splits)

lemma registryInv_stop:
  assumes "stop r s = Some s'"
  shows "registryInv s' = registryInv s"
  unfolding registryInv_def stop_fields [OF assms] ..

lemma registryInv_events [simp]: "registryInv (emitEvent ev s) = registryInv s"
  by (simp add: registryInv_def emitEvent_def childName_fun)

lemma registryInv_startChild [simp]: "registryInv (startChild ch s) = registryInv s"
  by (simp add: startChild_def)

lemma registryInv_doRemoveChild:
  assumes inv: "registryInv s" and run: "doRemoveChild nm s = Some (er, s')"
  shows "registryInv s'"
proof (cases "childMap s nm")
  case None
  then show ?thesis using inv run by (simp add: doRemoveChild_def)
next
  case (Some ch)
  show ?thesis
  proof (cases "stop ch s")
    case None
    then show ?thesis using run Some by (simp add: doRemoveChild_def)
  next
    case s1: (Some s1)
    note f = stop_fields [OF s1]
    have names: "distinct (map (childName s) (children s))"
      and alloc: "\<forall>r\<in>set (children s). r < nextRef s"
      and mp: "\<And>n r. childMap s n = Some r \<longleftrightarrow> r \<in> set (children s) \<and> childName s r = n"
      using inv by (simp_all add: registryInv_def)
    have ch: "ch \<in> set (children s)" "childName s ch = nm"
      using mp [of nm ch] Some by simp_all
    have dist: "distinct (children s)"
      using names by (simp add: distinct_map)
    have rm: "removeFirst ch (children s1) = remove1 ch (children s)"
      using removeFirst_distinct [OF dist ch(1)] f(1) by simp
    have "s' = s1\<lparr>children := remove1 ch (children s), childMap := (childMap s)(nm := None)\<rparr>"
      using run Some s1 by (simp add: doRemoveChild_def Let_def rm f(2))
    then have sf: "children s' = remove1 ch (children s)"
      "childMap s' = (childMap s)(nm := None)"
      "nextRef s' = nextRef s" "childName s' = childName s"
      using f by (simp_all add: childName_fun)
    have only: "\<And>r. r \<in> set (children s) \<Longrightarrow> childName s r = nm \<Longrightarrow> r = ch"
      using names ch by (simp add: distinct_map inj_on_def)
    show ?thesis
      unfolding registryInv_def sf
    proof (intro conjI allI)
      have "inj_on (childName s) (set (remove1 ch (children s)))"
        using names by (auto simp: distinct_map intro: inj_on_subset set_remove1_subset)
      then show "distinct (map (childName s) (remove1 ch (children s)))"
        using dist by (simp add: distinct_map)
      show "\<forall>r\<in>set (remove1 ch (children s)). r < nextRef s"
        using alloc dist by simp
      fix n r
      show "((childMap s)(nm := None)) n = Some r \<longleftrightarrow>
            r \<in> set (remove1 ch (children s)) \<and> childName s r = n"
      proof (cases "n = nm")
        case True
        then show ?thesis using only [of r] dist by auto
      next
        case False
        then show ?thesis using mp [of n r] ch dist by auto
      qed
    qed
  qed
qed

text \<open>Replacing the record of a slot by a newly allocated record of the same name.\<close>

lemma registryInv_update:
  assumes inv: "registryInv s" and k: "k < length (children s)"
      and nm: "nm = childName s (children s ! k)"
      and nr: "nextRef s' = Suc (nextRef s)"
      and cn: "childName s' = (childName s)(nextRef s := nm)"
      and cm: "childMap s' = (childMap s)(nm := Some (nextRef s))"
      and ch': "children s' = (children s)[k := nextRef s]"
  shows "registryInv s'"
proof -
  let ?n = "nextRef s"
  let ?old = "children s ! k"
  have names: "distinct (map (childName s) (children s))"
    and alloc: "\<forall>r\<in>set (children s). r < ?n"
    and mp: "\<And>n r. childMap s n = Some r \<longleftrightarrow> r \<in> set (children s) \<and> childName s r = n"
    using inv by (auto simp: registryInv_def)
  have dist: "distinct (children s)" using names by (simp add: distinct_map)
  have old: "?old \<in> set (children s)" "childName s ?old = nm" using k nm by simp_all
  have same: "\<forall>c\<in>set (children s). childName s' c = childName s c"
    using alloc by (auto simp: cn)
  have set': "set (children s') = insert ?n (set (children s) - {?old})"
    using set_update_distinct [OF dist k] by (simp add: ch')
  have "map (childName s') (children s') = (map (childName s') (children s))[k := nm]"
    by (simp add: ch' map_update cn)
  also have "map (childName s') (children s) = map (childName s) (children s)"
    using same by simp
  also have "(map (childName s) (children s))[k := nm] = map (childName s) (children s)"
    using k old by (intro list_update_same_conv [THEN iffD2]) simp_all
  finally have names': "map (childName s') (children s') = map (childName s) (children s)" .
  have only: "\<forall>r\<in>set (children s). childName s r = nm \<longrightarrow> r = ?old"
    using names old by (auto simp: distinct_map inj_on_def)
  show ?thesis
    unfolding registryInv_def
  proof (intro conjI allI)
    show "distinct (map (childName s') (children s'))"
      using names names' by simp
    show "\<forall>r\<in>set (children s'). r < nextRef s'"
      using alloc set' nr by auto
    fix n r
    have nin: "?n \<notin> set (children s)" using alloc by auto
    show "childMap s' n = Some r \<longleftrightarrow> r \<in> set (children s') \<and> childName s' r = n"
    proof (cases "r = ?n")
      case True
      then show ?thesis using nin mp [of n ?n] by (simp add: cm cn set')
    next
      case False
      note r = this
      show ?thesis
      proof (cases "n = nm")
        case True
        have "\<not> (r \<in> set (children s) - {?old} \<and> childName s r = nm)"
          using only by blast
        then show ?thesis using r True by (simp add: cm cn set')
      next
        case False
        have "r \<in> set (children s) \<and> childName s r = n \<longleftrightarrow>
              r \<in> set (children s) - {?old} \<and> childName s r = n"
          using old False by blast
        then show ?thesis using r False mp [of n r] by (simp add: cm cn set')
      qed
    qed
  qed
qed

text \<open>With distinct names, the loop that replaces the first record of a name hits its slot.\<close>

lemma replaceFirst_registered:
  assumes inv: "registryInv s" and reg: "childMap s nm = Some old"
  shows "\<exists>k. k < length (children s) \<and> nm = childName s (children s ! k)
    \<and> replaceFirst (\<lambda>c. ((childName s)(nextRef s := nm)) c = nm) (nextRef s) (children s)
         = (children s)[k := nextRef s]"
proof -
  have names: "distinct (map (childName s) (children s))"
    and alloc: "\<forall>r\<in>set (children s). r < nextRef s"
    and mp: "\<And>n r. childMap s n = Some r \<longleftrightarrow> r \<in> set (children s) \<and> childName s r = n"
    using inv by (auto simp: registryInv_def)
  have old: "old \<in> set (children s)" "childName s old = nm" using reg mp by auto
  then obtain k where k: "k < length (children s)" "children s ! k = old"
    by (auto simp: in_set_conv_nth)
  have "\<forall>j<k. childName s (children s ! j) \<noteq> nm"
  proof (intro allI impI)
    fix j assume j: "j < k"
    have "(map (childName s) (children s) ! j = map (childName s) (children s) ! k) = (j = k)"
      using names k j by (intro nth_eq_iff_index_eq) simp_all
    then show "childName s (children s ! j) \<noteq> nm" using j k old by simp
  qed
  then have "findIndex (\<lambda>c. childName s c = nm) (children s) = Some k"
    using k old by (intro findIndex_first) simp_all
  moreover have "findIndex (\<lambda>c. ((childName s)(nextRef s := nm)) c = nm) (children s) =
                 findIndex (\<lambda>c. childName s c = nm) (children s)"
    using alloc by (intro findIndex_cong) auto
  ultimately have "replaceFirst (\<lambda>c. ((childName s)(nextRef s := nm)) c = nm) (nextRef s)
                     (children s) = (children s)[k := nextRef s]"
    by (simp add: replaceFirst_def)
  moreover have "nm = childName s (children s ! k)" using k old by simp
  ultimately show ?thesis using k(1) by blast
qed

lemma registryInv_replace:
  assumes inv: "registryInv s" and reg: "childMap s nm = Some old"
      and nr: "nextRef s' = Suc (nextRef s)"
      and cn: "childName s' = (childName s)(nextRef s := nm)"
      and cm: "childMap s' = (childMap s)(nm := Some (nextRef s))"
      and ch: "children s' = replaceFirst (\<lambda>c. childName s' c = nm) (nextRef s) (children s)"
  shows "registryInv s'"
proof -
  from replaceFirst_registered [OF inv reg] obtain k
    where k: "k < length (children s)" "nm = childName s (children s ! k)"
      "replaceFirst (\<lambda>c. ((childName s)(nextRef s := nm)) c = nm) (nextRef s) (children s)
         = (children s)[k := nextRef s]" by blast
  have "children s' = (children s)[k := nextRef s]"
    using ch k(3) by (simp only: cn)
  then show ?thesis
    by (rule registryInv_update [OF inv k(1,2) nr cn cm])
qed

lemma registryInv_doRestartChild:
  assumes inv: "registryInv s" and run: "doRestartChild nm s = Some (er, s')"
  shows "registryInv s'"
proof (cases "childMap s nm")
  case None
  then show ?thesis using inv run by (simp add: doRestartChild_def)
next
  case (Some old)
  then obtain s1 where s1: "stop old s = Some s1"
    using run by (auto simp: doRestartChild_def split: option.splits)
  have inv1: "registryInv s1" using registryInv_stop [OF s1] inv by simp
  note f = stop_fields [OF s1]
  have nm: "childName s old = nm" using inv Some by (auto simp: registryInv_def)
  then have sp: "Name (spec (heap s1 old)) = nm" using f(4) by (simp add: childName_fun fun_eq_iff)
  have reg1: "childMap s1 nm = Some old" using Some f by simp
  show ?thesis
  proof (rule registryInv_replace [OF inv1 reg1])
    have s': "s' = snd (the (doRestartChild nm s))" using run by simp
    show "nextRef s' = Suc (nextRef s1)"
      using Some s1
      by (simp add: s' doRestartChild_def newChild_def startChild_def emitEvent_def Let_def)
    show cn': "childName s' = (childName s1)(nextRef s1 := nm)"
      using Some s1 sp
      by (simp add: s' doRestartChild_def newChild_def startChild_def emitEvent_def Let_def
          childName_fun fun_eq_iff)
    show "childMap s' = (childMap s1)(nm := Some (nextRef s1))"
      using Some s1
      by (simp add: s' doRestartChild_def newChild_def startChild_def emitEvent_def Let_def)
    have "children s' =
          replaceFirst (\<lambda>c. ((childName s1)(nextRef s1 := nm)) c = nm) (nextRef s1) (children s1)"
      using Some s1 sp
      by (simp add: s' doRestartChild_def newChild_def startChild_def emitEvent_def Let_def
          childName_fun)
    then show "children s' = replaceFirst (\<lambda>c. childName s' c = nm) (nextRef s1) (children s1)"
      by (simp only: cn')
  qed
qed

lemma registryInv_restartOne:
  assumes inv: "registryInv s" and reg: "childMap s (childName s (child exit)) \<noteq> None"
  shows "registryInv (snd (restartOne exit s))"
proof -
  from reg obtain old where old: "childMap s (childName s (child exit)) = Some old" by auto
  show ?thesis
  proof (rule registryInv_replace [OF inv old])
    show "nextRef (snd (restartOne exit s)) = Suc (nextRef s)"
      by (simp add: restartOne_def Let_def newChild_def setRestartCount_def startChild_def
          emitEvent_def)
    show cn': "childName (snd (restartOne exit s)) =
          (childName s)(nextRef s := childName s (child exit))"
      by (simp add: restartOne_def Let_def newChild_def setRestartCount_def startChild_def
          emitEvent_def childName_fun fun_eq_iff)
    show "childMap (snd (restartOne exit s)) =
          (childMap s)(childName s (child exit) := Some (nextRef s))"
      by (simp add: restartOne_def Let_def newChild_def setRestartCount_def startChild_def
          emitEvent_def childName_fun)
    have "children (snd (restartOne exit s)) =
          replaceFirst (\<lambda>c. ((childName s)(nextRef s := childName s (child exit))) c =
                              childName s (child exit))
            (nextRef s) (children s)"
      by (simp add: restartOne_def Let_def newChild_def setRestartCount_def startChild_def
          emitEvent_def childName_fun)
    then show "children (snd (restartOne exit s)) =
          replaceFirst (\<lambda>c. childName (snd (restartOne exit s)) c = childName s (child exit))
            (nextRef s) (children s)"
      by (simp only: cn')
  qed
qed


lemma registryInv_restartSlot:
  assumes inv: "registryInv s" and i: "i < length (children s)"
  shows "registryInv (restartSlot i s)"
proof (rule registryInv_update [OF inv i refl])
  show "nextRef (restartSlot i s) = Suc (nextRef s)"
    by (rule restartSlot_nextRef)
  show "childName (restartSlot i s) = (childName s)(nextRef s := childName s (children s ! i))"
    by (simp add: restartSlot_heap childName_fun replacement_def fun_eq_iff)
  show "childMap (restartSlot i s) = (childMap s)(childName s (children s ! i) := Some (nextRef s))"
    by (simp add: restartSlot_def Let_def newChild_def setRestartCount_def startChild_def
        emitEvent_def childName_fun)
  show "children (restartSlot i s) = (children s)[i := nextRef s]"
    by (rule restartSlot_children)
qed

lemma registryInv_restartFrom: "registryInv s \<Longrightarrow> registryInv (restartFrom i s)"
proof (induction i s rule: restartFrom.induct)
  case (1 i s)
  show ?case
  proof (cases "i < length (children s)")
    case True
    then have "registryInv (restartFrom (Suc i) (restartSlot i s))"
      using "1.IH" registryInv_restartSlot [OF "1.prems"] by simp
    then show ?thesis using True by (subst restartFrom.simps) simp
  next
    case False
    then show ?thesis using "1.prems" by (subst restartFrom.simps) simp
  qed
qed

lemma registryInv_stopAll: "stopAll rs s = Some s' \<Longrightarrow> registryInv s' = registryInv s"
proof (induction rs arbitrary: s)
  case Nil
  then show ?case by simp
next
  case (Cons r rs)
  then obtain s1 where s1: "stop r s = Some s1" and rest: "stopAll rs s1 = Some s'"
    by (auto split: option.splits)
  show ?case
    using Cons.IH [OF rest] registryInv_stop [OF s1] by simp
qed

lemma registryInv_restartRestForOne:
  assumes inv: "registryInv s" and run: "restartRestForOne exit s = Some (er, s')"
  shows "registryInv s'"
proof (cases "findIndex (\<lambda>ch. childName s ch = childName s (child exit)) (children s)")
  case None
  then show ?thesis using inv run by (simp add: restartRestForOne_def)
next
  case (Some i)
  show ?thesis
  proof (cases "stopAll (drop i (children s)) s")
    case None
    then show ?thesis using run Some by (simp add: restartRestForOne_def)
  next
    case s1: (Some s1)
    have "registryInv s1" using registryInv_stopAll [OF s1] inv by simp
    then have "registryInv (restartFrom i s1)" by (rule registryInv_restartFrom)
    then show ?thesis using run Some s1 by (simp add: restartRestForOne_def)
  qed
qed


lemma registryInv_startAll [simp]: "registryInv (startAll chs s) = registryInv s"
  by (induction chs arbitrary: s) simp_all

lemma registryInv_createAll:
  assumes inv: "registryInv s"
  shows "registryInv ((snd (createAll (children s) [] s))
                        \<lparr>children := fst (createAll (children s) [] s)\<rparr>)"
proof -
  let ?chs = "children s"
  let ?n = "nextRef s"
  let ?s2 = "snd (createAll ?chs [] s)"
  let ?new = "[?n ..< ?n + length ?chs]"
  let ?s3 = "?s2\<lparr>children := ?new\<rparr>"
  have names: "distinct (map (childName s) ?chs)"
    and alloc: "\<forall>r\<in>set ?chs. r < ?n"
    and mp: "\<And>n r. childMap s n = Some r \<longleftrightarrow> r \<in> set ?chs \<and> childName s r = n"
    using inv by (auto simp: registryInv_def)
  have nm: "\<And>j. j < length ?chs \<Longrightarrow> childName ?s3 (?n + j) = childName s (?chs ! j)"
    using createAll_heap_new [OF alloc, of _ "[]"] by (simp add: childName_def replacement_def)
  have "map (childName ?s3) ?new = map (childName s) ?chs"
    by (rule nth_equalityI) (simp_all add: nm)
  then have d: "distinct (map (childName ?s3) (children ?s3))"
    using names by simp
  have a: "\<forall>r\<in>set (children ?s3). r < nextRef ?s3"
    by (simp add: createAll_fields)
  have m: "childMap ?s3 n = Some r \<longleftrightarrow> r \<in> set (children ?s3) \<and> childName ?s3 r = n" for n r
  proof (cases "n \<in> childName s ` set ?chs")
    case True
    then obtain j where j: "j < length ?chs" "n = childName s (?chs ! j)"
      by (auto simp: in_set_conv_nth)
    have cm: "childMap ?s3 n = Some (?n + j)"
      using createAll_childMap_new [OF names alloc j(1), of "[]"] j(2) by simp
    show ?thesis
    proof
      assume "childMap ?s3 n = Some r"
      then have "r = ?n + j" using cm by simp
      then show "r \<in> set (children ?s3) \<and> childName ?s3 r = n"
        using j nm [of j] by simp
    next
      assume r: "r \<in> set (children ?s3) \<and> childName ?s3 r = n"
      then obtain i where i: "i < length ?chs" "r = ?n + i"
        by (auto simp: nat_le_iff_add)
      then have "childName s (?chs ! i) = childName s (?chs ! j)"
        using r nm [of i] j(2) by simp
      then have "map (childName s) ?chs ! i = map (childName s) ?chs ! j"
        using i j by simp
      then have "i = j"
        using nth_eq_iff_index_eq [OF names, of i j] i j by simp
      then show "childMap ?s3 n = Some r" using cm i by simp
    qed
  next
    case False
    have "childMap ?s3 n = childMap s n"
      using createAll_childMap_other [OF False alloc, of "[]"] by simp
    moreover have "childMap s n \<noteq> Some r" using mp [of n r] False by auto
    moreover have "\<not> (r \<in> set (children ?s3) \<and> childName ?s3 r = n)"
    proof
      assume r: "r \<in> set (children ?s3) \<and> childName ?s3 r = n"
      then obtain i where i: "i < length ?chs" "r = ?n + i"
        by (auto simp: nat_le_iff_add)
      then have "n = childName s (?chs ! i)" using r nm [of i] by simp
      then show False using False i by auto
    qed
    ultimately show ?thesis by simp
  qed
  have "registryInv ?s3"
    unfolding registryInv_def using d a m by blast
  then show ?thesis by (simp add: createAll_fst)
qed

lemma registryInv_restartAll:
  assumes inv: "registryInv s" and run: "restartAll s = Some (er, s')"
  shows "registryInv s'"
proof (cases "stopAll (children s) s")
  case None
  then show ?thesis using run by (simp add: restartAll_def)
next
  case (Some s1)
  have inv1: "registryInv s1" using registryInv_stopAll [OF Some] inv by simp
  obtain new s2 where c: "createAll (children s1) [] s1 = (new, s2)"
    by (cases "createAll (children s1) [] s1")
  have "registryInv (s2\<lparr>children := new\<rparr>)"
    using registryInv_createAll [OF inv1] c by simp
  then show ?thesis
    using run Some c by (auto simp: restartAll_def Let_def)
qed

text \<open>Every path of \<open>executeStrategy\<close> for an exit whose name is registered.\<close>

lemma registryInv_executeStrategy:
  assumes inv: "registryInv s" and reg: "childMap s (childName s (child exit)) \<noteq> None"
      and run: "executeStrategy exit s = Some (er, s')"
  shows "registryInv s'"
proof -
  consider "strategy s = OneForOne \<or> strategy s = SimpleOneForOne"
    | "strategy s \<noteq> OneForOne" "strategy s = OneForAll"
    | "strategy s \<noteq> OneForOne" "strategy s \<noteq> OneForAll" "strategy s = RestForOne"
    | "strategy s \<noteq> OneForOne" "strategy s \<noteq> OneForAll" "strategy s \<noteq> RestForOne"
      "strategy s \<noteq> SimpleOneForOne"
    by blast
  then show ?thesis
  proof cases
    case 1
    then have "s' = snd (restartOne exit s)"
      using run
      by (auto simp: executeStrategy_def OneForOne_def OneForAll_def RestForOne_def
          SimpleOneForOne_def)
    then show ?thesis using registryInv_restartOne [OF inv reg] by simp
  next
    case 2
    then have "restartAll s = Some (er, s')" using run by (simp add: executeStrategy_def)
    then show ?thesis by (rule registryInv_restartAll [OF inv])
  next
    case 3
    then have "restartRestForOne exit s = Some (er, s')"
      using run by (simp add: executeStrategy_def)
    then show ?thesis by (rule registryInv_restartRestForOne [OF inv])
  next
    case 4
    then show ?thesis using run inv by (simp add: executeStrategy_def)
  qed
qed


lemma registryInv_cong:
  "children s' = children s \<Longrightarrow> childMap s' = childMap s \<Longrightarrow> heap s' = heap s \<Longrightarrow>
   nextRef s' = nextRef s \<Longrightarrow> registryInv s' = registryInv s"
  by (simp add: registryInv_def childName_fun)

lemma registryInv_handleChildExit:
  assumes inv: "registryInv s" and reg: "childMap s (childName s (child exit)) \<noteq> None"
      and run: "handleChildExit e exit s = Some (er, s')"
  shows "registryInv s'"
proof (cases "shouldRestart exit s")
  case False
  then show ?thesis using inv run by (auto simp: handleChildExit_no_restart)
next
  case True
  show ?thesis
  proof (cases "fst (checkRestartIntensity e s)")
    case False
    have "registryInv (emitEvent (intensityEvent exit s)
                 ((emitEvent (exitEvent exit s) s)
                    \<lparr>restartHistory := restartHistory (snd (checkRestartIntensity e s))\<rparr>)) =
          registryInv s"
      by (rule registryInv_cong) simp_all
    then show ?thesis
      using handleChildExit_fatal [OF True False] run inv by simp
  next
    case ok: True
    let ?s1 = "emitEvent (exitEvent exit s) s"
    obtain b s2 where c: "checkRestartIntensity e ?s1 = (b, s2)"
      by (cases "checkRestartIntensity e ?s1")
    have b: "b"
      using ok c checkRestartIntensity_emitEvent(2) [of e "exitEvent exit s" s] by simp
    have s2: "s2 = snd (checkRestartIntensity e ?s1)" using c by simp
    let ?s3 = "s2\<lparr>slept := slept s2 @ backoffSleep e exit s2\<rparr>"
    have f: "children ?s3 = children s" "childMap ?s3 = childMap s" "heap ?s3 = heap s"
      "nextRef ?s3 = nextRef s"
      by (simp_all add: s2)
    have inv3: "registryInv ?s3"
      using registryInv_cong [OF f] inv by simp
    have reg3: "childMap ?s3 (childName ?s3 (child exit)) \<noteq> None"
      using reg f by (simp add: childName_def)
    have "handleChildExit e exit s = executeStrategy exit ?s3"
      using True c b by (simp add: handleChildExit_def Let_def backoffSleep_def)
    then have "executeStrategy exit ?s3 = Some (er, s')" using run by simp
    then show ?thesis by (rule registryInv_executeStrategy [OF inv3 reg3])
  qed
qed

lemma restartOne_unregistered:
  assumes inv: "registryInv s" and unreg: "childMap s (childName s (child exit)) = None"
  shows "\<not> registryInv (snd (restartOne exit s))"
proof
  let ?nm = "childName s (child exit)"
  let ?s = "snd (restartOne exit s)"
  assume inv': "registryInv ?s"
  have alloc: "\<forall>r\<in>set (children s). r < nextRef s"
    and mp: "\<And>n r. childMap s n = Some r \<longleftrightarrow> r \<in> set (children s) \<and> childName s r = n"
    using inv by (auto simp: registryInv_def)
  have none: "\<forall>c\<in>set (children s). childName s c \<noteq> ?nm"
    using mp [of ?nm] unreg by auto
  have "\<forall>c\<in>set (children s). \<not> ((childName s)(nextRef s := ?nm)) c = ?nm"
    using none alloc by auto
  then have fi: "findIndex (\<lambda>c. ((childName s)(nextRef s := ?nm)) c = ?nm) (children s) = None"
    by (simp only: findIndex_None_iff)
  have rc: "children ?s =
        replaceFirst (\<lambda>c. ((childName s)(nextRef s := ?nm)) c = ?nm) (nextRef s) (children s)"
    by (simp add: restartOne_def Let_def newChild_def setRestartCount_def startChild_def
        emitEvent_def childName_fun)
  have "children ?s = children s"
    unfolding rc replaceFirst_def fi by simp
  then have "nextRef s \<notin> set (children ?s)"
    using alloc by auto
  moreover have "childMap ?s ?nm = Some (nextRef s)"
    by (rule restartOne_record)
  ultimately show False
    using inv' by (auto simp: registryInv_def)
qed

lemma registryInv_restartOne_iff:
  "registryInv s \<Longrightarrow>
   registryInv (snd (restartOne exit s)) \<longleftrightarrow> childMap s (childName s (child exit)) \<noteq> None"
  using registryInv_restartOne [of s exit] restartOne_unregistered [of s exit] by blast


text \<open>
  Claim C5. The children slice and the \<^verbatim>\<open>childMap\<close> hold the same records under the
  same names after every operation. The lemmas above show it for \<^verbatim>\<open>doAddChild\<close>,
  \<^verbatim>\<open>doRemoveChild\<close>, \<^verbatim>\<open>doRestartChild\<close>, \<^verbatim>\<open>restartAll\<close>, \<^verbatim>\<open>restartRestForOne\<close>, and
  for \<^verbatim>\<open>restartOne\<close> when the exited child's name is registered. \<^verbatim>\<open>restartOne\<close> writes
  the map entry of that name without looking whether the slice has a record of it
  (\<^verbatim>\<open>restartRestForOne\<close> returns when it has none), and breaks the invariant exactly
  then. A \<open>Permanent\<close> child \<open>w\<close> is added and removed; its exit is processed next:
  the slice stays empty and the map holds a new, started record under \<open>w\<close>.
\<close>

theorem C5_restartOne_after_remove:
  "(let e = \<lparr>now = 0, f2i_overflow = 0\<rparr>;
        exit = \<lparr>child = 0, err = None, panic = False, stackTrace = []\<rparr>;
        s1 = snd (doAddChild \<lparr>Name = ''w'', Restart = Permanent\<rparr> (New OneForOne []));
        s2 = snd (the (doRemoveChild ''w'' s1));
        s3 = snd (the (handleChildExit e exit s2))
    in children s1 = [0] \<and> childMap s1 ''w'' = Some 0
     \<and> doRemoveChild ''w'' s1 \<noteq> None \<and> fst (the (doRemoveChild ''w'' s1)) = None
     \<and> children s2 = [] \<and> childMap s2 ''w'' = None
     \<and> handleChildExit e exit s2 \<noteq> None \<and> fst (the (handleChildExit e exit s2)) = None
     \<and> children s3 = [] \<and> childMap s3 ''w'' = Some 1
     \<and> events s3 = events s2 @ [exitEvent exit s2, restartedEvent ''w'', startedEvent ''w''])"
  by code_simp

end
